theory Spec2Isabelle
  imports Complex_Main "HOL-Library.Sublist"
begin

section \<open>Browser pool bounds (utils/pdf.ts, PuppeteerControl.pagePool)\<close>

text \<open>
  The pool is created with
  \<^verbatim>\<open>max: 1 + Math.floor(os.freemem() / 1024 * 1024 * 1024), min: 1\<close>.
  \<^verbatim>\<open>os.freemem()\<close> is a non-negative integer number of bytes. JavaScript evaluates
  \<^verbatim>\<open>/\<close> and \<^verbatim>\<open>*\<close> from left to right, so the operand of \<^verbatim>\<open>Math.floor\<close> is
  \<open>((freemem / 1024) * 1024) * 1024\<close>. Scaling a double by a power of two is exact, so the
  arithmetic is modelled over the reals.
\<close>

definition pagePool_max :: "nat \<Rightarrow> int" where
  "pagePool_max freemem = 1 + \<lfloor>real freemem / 1024 * 1024 * 1024\<rfloor>"

definition pagePool_min :: int where
  "pagePool_min = 1"

text \<open>What the specification asks for: one more than the whole GiB of free memory.\<close>

definition spec_pool_max :: "nat \<Rightarrow> int" where
  "spec_pool_max freemem = 1 + int (freemem div (1024 * 1024 * 1024))"

lemma pagePool_max_eq: "pagePool_max freemem = 1 + 1024 * int freemem"
proof -
  have "real freemem / 1024 * 1024 * 1024 = of_int (1024 * int freemem)"
    by simp
  then have "\<lfloor>real freemem / 1024 * 1024 * 1024\<rfloor> = 1024 * int freemem"
    by (metis floor_of_int)
  then show ?thesis
    by (simp add: pagePool_max_def)
qed

text \<open>
  C2. With 8 GiB of free memory (\<open>os.freemem() = 8589934592\<close>) the pool maximum computed
  by the code is \<open>8796093022209\<close>, while one plus the free memory in whole GiB is \<open>9\<close>.
\<close>

theorem pagePool_max_8GiB:
  "pagePool_max 8589934592 = 8796093022209 \<and> spec_pool_max 8589934592 = 9 \<and> pagePool_min = 1"
  by (simp add: pagePool_max_eq spec_pool_max_def pagePool_min_def)


section \<open>Nightly cruncher (cloud-functions/data-crunching.ts)\<close>

subsection \<open>Decimal rendering of the batch offset\<close>

text \<open>
  The template literal renders the numeric counter in decimal (the counter is a small
  non-negative integer, so no exponent notation is involved).
\<close>

definition digit_char :: "nat \<Rightarrow> char" where
  "digit_char d = char_of (48 + d)"

function show_nat :: "nat \<Rightarrow> string" where
  "show_nat n = (if n < 10 then [digit_char n] else show_nat (n div 10) @ [digit_char (n mod 10)])"
  by pat_completeness auto
termination
  by (relation "measure (\<lambda>n. n)") auto

declare show_nat.simps [simp del]

definition digit_val :: "char \<Rightarrow> nat" where
  "digit_val c = of_char c - 48"

definition read_nat :: "string \<Rightarrow> nat" where
  "read_nat s = foldl (\<lambda>acc c. 10 * acc + digit_val c) 0 s"

subsection \<open>Data and collaborators\<close>

record crawled =
  crawled_id :: string
  createdAt :: int

record snapshot =
  href :: string
  html :: string

datatype format_mode = Default | Markdown

text \<open>
  The collaborators of the cruncher that are not part of the class: the record store, the
  date formatter of dayjs, the snapshot blobs, \<^verbatim>\<open>JSON.parse\<close> (\<open>None\<close>: it throws),
  the crawler's \<^verbatim>\<open>formatSnapshot\<close> (the \<^verbatim>\<open>content\<close> of the formatted page;
  \<open>None\<close>: it throws) and \<^verbatim>\<open>JSON.stringify\<close> of the line object.
\<close>

record crunch_env =
  collection :: "crawled list"
  formatDay :: "int \<Rightarrow> string"
  downloadFile :: "string \<Rightarrow> string option"
  JSON_parse :: "string \<Rightarrow> snapshot option"
  formatSnapshot :: "format_mode \<Rightarrow> snapshot \<Rightarrow> string option"
  JSON_stringify :: "string \<Rightarrow> string \<Rightarrow> string \<Rightarrow> string"

text \<open>Object storage: the files of the bucket with their lines, newest upload first.\<close>

type_synonym storage = "(string \<times> string list) list"

definition file_exists :: "storage \<Rightarrow> string \<Rightarrow> bool" where
  "file_exists st fileName = (fileName \<in> fst ` set st)"

definition save :: "string \<Rightarrow> string list \<Rightarrow> storage \<Rightarrow> storage" where
  "save fileName content st = (fileName, content) # st"

definition pageCacheCrunchingPrefix :: string where
  "pageCacheCrunchingPrefix = ''crunched-pages''"

definition pageCacheCrunchingBatchSize :: nat where
  "pageCacheCrunchingBatchSize = 10000"

definition pageCacheCrunchingTMinus :: int where
  "pageCacheCrunchingTMinus = 31 * 24 * 60 * 60 * 1000"

definition rev_no :: nat where
  "rev_no = 2"

definition msPerDay :: int where
  "msPerDay = 24 * 60 * 60 * 1000"

text \<open>Days are numbered from the epoch; \<open>utc_day t\<close> is \<^verbatim>\<open>dayjs(t).utc().startOf('day')\<close>.\<close>

definition utc_day :: "int \<Rightarrow> int" where
  "utc_day t = t div msPerDay"

definition offset_label :: "nat \<Rightarrow> string" where
  "offset_label counter = (if counter \<noteq> 0 then show_nat counter else ''00000'')"

definition file_name :: "crunch_env \<Rightarrow> int \<Rightarrow> nat \<Rightarrow> string" where
  "file_name env theDay counter =
     pageCacheCrunchingPrefix @ ''/r'' @ show_nat rev_no @ ''/'' @ formatDay env theDay
       @ ''-'' @ offset_label counter @ ''.jsonl''"

text \<open>
  The Firestore query: \<^verbatim>\<open>createdAt >= theDay\<close>, \<^verbatim>\<open>createdAt < theDay + 1 day\<close>,
  ordered by \<^verbatim>\<open>createdAt\<close> ascending, \<^verbatim>\<open>offset\<close>, \<^verbatim>\<open>limit\<close>.
\<close>

definition day_records :: "crunch_env \<Rightarrow> int \<Rightarrow> crawled list" where
  "day_records env theDay =
     sort_key createdAt
       (filter (\<lambda>r. theDay * msPerDay \<le> createdAt r \<and> createdAt r < (theDay + 1) * msPerDay)
          (collection env))"

definition query :: "crunch_env \<Rightarrow> int \<Rightarrow> nat \<Rightarrow> crawled list" where
  "query env theDay offset =
     take pageCacheCrunchingBatchSize (drop offset (day_records env theDay))"

text \<open>
  \<^verbatim>\<open>crunchCacheRecords\<close>: one line per record whose snapshot downloads, parses and
  formats; a record that fails in the \<^verbatim>\<open>try\<close> block is logged and left out. The
  lines are written in the order the downloads complete; record order is taken here.
\<close>

definition crunch_line :: "crunch_env \<Rightarrow> crawled \<Rightarrow> string option" where
  "crunch_line env r =
     (case downloadFile env (''snapshots/'' @ crawled_id r) of
        None \<Rightarrow> None
      | Some snapshotTxt \<Rightarrow>
         (case JSON_parse env snapshotTxt of
            None \<Rightarrow> None
          | Some snap \<Rightarrow>
             (case formatSnapshot env Default snap of
                None \<Rightarrow> None
              | Some content \<Rightarrow>
                 (if content = [] then
                    (case formatSnapshot env Markdown snap of
                       None \<Rightarrow> None
                     | Some content' \<Rightarrow>
                         Some (JSON_stringify env (href snap) (html snap) content' @ [CHR 0x0A]))
                  else Some (JSON_stringify env (href snap) (html snap) content @ [CHR 0x0A])))))"

definition crunchCacheRecords :: "crunch_env \<Rightarrow> crawled list \<Rightarrow> string list" where
  "crunchCacheRecords env records = List.map_filter (crunch_line env) records"

datatype action =
    Skip string
  | Query int nat nat
  | Upload string "string list"

subsection \<open>File names are injective in the offset\<close>

lemma digit_val_digit_char: "d < 10 \<Longrightarrow> digit_val (digit_char d) = d"
  by (simp add: digit_val_def digit_char_def)

lemma read_nat_snoc: "read_nat (s @ [c]) = 10 * read_nat s + digit_val c"
  by (simp add: read_nat_def)

lemma read_show_nat: "read_nat (show_nat n) = n"
proof (induction n rule: show_nat.induct)
  case (1 n)
  show ?case
  proof (cases "n < 10")
    case True
    then show ?thesis
      by (subst show_nat.simps) (simp add: read_nat_def digit_val_digit_char)
  next
    case False
    then have "read_nat (show_nat (n div 10)) = n div 10"
      using 1 by simp
    with False show ?thesis
      by (subst show_nat.simps) (simp add: read_nat_snoc digit_val_digit_char)
  qed
qed

lemma show_nat_inj: "show_nat m = show_nat n \<Longrightarrow> m = n"
  by (metis read_show_nat)

lemma read_nat_zeros: "read_nat ''00000'' = 0"
  by (simp add: read_nat_def digit_val_def)

lemma offset_label_inj: "offset_label m = offset_label n \<Longrightarrow> m = n"
proof -
  assume a: "offset_label m = offset_label n"
  have "read_nat (offset_label k) = k" for k
    by (simp add: offset_label_def read_show_nat read_nat_zeros)
  then show ?thesis using a by metis
qed


lemma file_name_inj: "file_name env d m = file_name env d n \<Longrightarrow> m = n"
  by (auto simp: file_name_def dest: offset_label_inj)

definition emit :: "action list \<Rightarrow> action list \<times> storage \<Rightarrow> action list \<times> storage" where
  "emit acts r = (acts @ fst r, snd r)"

text \<open>
  The batch loop ends because the bucket holds finitely many files: the offsets of the day,
  from the counter on, whose file is already in the bucket serve as a measure.
\<close>

definition later_files :: "crunch_env \<Rightarrow> int \<Rightarrow> nat \<Rightarrow> storage \<Rightarrow> nat set" where
  "later_files env theDay counter st = {c. counter \<le> c \<and> file_exists st (file_name env theDay c)}"

lemma finite_later_files: "finite (later_files env theDay counter st)"
proof -
  have "later_files env theDay counter st \<subseteq> file_name env theDay -` (fst ` set st)"
    by (auto simp: later_files_def file_exists_def)
  moreover have "finite (file_name env theDay -` (fst ` set st))"
    by (rule finite_vimageI) (auto simp: inj_on_def dest: file_name_inj)
  ultimately show ?thesis
    by (rule finite_subset)
qed

definition crunch_measure :: "crunch_env \<Rightarrow> int \<Rightarrow> nat \<Rightarrow> storage \<Rightarrow> nat" where
  "crunch_measure env theDay counter st =
     (length (day_records env theDay) - counter) + card (later_files env theDay counter st)"

lemma measure_skip:
  assumes "file_exists st (file_name env theDay counter)"
  shows "crunch_measure env theDay (counter + pageCacheCrunchingBatchSize) st
           < crunch_measure env theDay counter st"
proof -
  let ?B = pageCacheCrunchingBatchSize
  have "counter \<in> later_files env theDay counter st"
    using assms by (simp add: later_files_def)
  moreover have "counter \<notin> later_files env theDay (counter + ?B) st"
    by (simp add: later_files_def pageCacheCrunchingBatchSize_def)
  moreover have "later_files env theDay (counter + ?B) st \<subseteq> later_files env theDay counter st"
    by (auto simp: later_files_def)
  ultimately have "later_files env theDay (counter + ?B) st \<subset> later_files env theDay counter st"
    by blast
  then have "card (later_files env theDay (counter + ?B) st) < card (later_files env theDay counter st)"
    by (simp add: finite_later_files psubset_card_mono)
  then show ?thesis
    by (simp add: crunch_measure_def)
qed

lemma measure_upload:
  assumes "query env theDay counter \<noteq> []"
  shows "crunch_measure env theDay (counter + pageCacheCrunchingBatchSize)
            (save (file_name env theDay counter) content st)
           < crunch_measure env theDay counter st"
proof -
  let ?B = pageCacheCrunchingBatchSize
  have lt: "counter < length (day_records env theDay)"
    using assms by (auto simp: query_def pageCacheCrunchingBatchSize_def)
  have "later_files env theDay (counter + ?B) (save (file_name env theDay counter) content st)
          \<subseteq> later_files env theDay counter st"
    by (auto simp: later_files_def save_def file_exists_def pageCacheCrunchingBatchSize_def
          dest: file_name_inj)
  then have "card (later_files env theDay (counter + ?B) (save (file_name env theDay counter) content st))
          \<le> card (later_files env theDay counter st)"
    by (simp add: finite_later_files card_mono)
  with lt show ?thesis
    by (simp add: crunch_measure_def pageCacheCrunchingBatchSize_def)
qed

text \<open>
  \<^verbatim>\<open>iterPageCacheCrunching\<close> together with the loop of \<^verbatim>\<open>crunchPageCache\<close> that
  consumes it: the generator resumes only after the yielded batch has been crunched and
  saved, so the existence check of the next iteration sees the upload. The result is the
  trace of the run and the bucket at its end.
\<close>

function crunchLoop :: "crunch_env \<Rightarrow> int \<Rightarrow> int \<Rightarrow> nat \<Rightarrow> storage \<Rightarrow> action list \<times> storage" where
  "crunchLoop env startOfToday theDay counter st =
     (if theDay < startOfToday then
        (if file_exists st (file_name env theDay counter) then
           emit [Skip (file_name env theDay counter)]
             (crunchLoop env startOfToday theDay (counter + pageCacheCrunchingBatchSize) st)
         else if query env theDay counter = [] then
           emit [Query theDay counter 0]
             (crunchLoop env startOfToday (theDay + 1) 0 st)
         else
           emit [Query theDay counter (length (query env theDay counter)),
                 Upload (file_name env theDay counter) (crunchCacheRecords env (query env theDay counter))]
             (crunchLoop env startOfToday theDay (counter + pageCacheCrunchingBatchSize)
                (save (file_name env theDay counter)
                   (crunchCacheRecords env (query env theDay counter)) st)))
      else ([], st))"
  by pat_completeness auto
termination
proof (relation "(\<lambda>(env, startOfToday, theDay, counter, st). nat (startOfToday - theDay))
                   <*mlex*> measure (\<lambda>(env, startOfToday, theDay, counter, st). crunch_measure env theDay counter st)")
  show "wf ((\<lambda>(env, startOfToday, theDay, counter, st). nat (startOfToday - theDay))
                   <*mlex*> measure (\<lambda>(env, startOfToday, theDay, counter, st). crunch_measure env theDay counter st))"
    by (simp add: wf_mlex)
next
  fix env :: crunch_env and startOfToday theDay :: int and counter :: nat and st :: storage
  assume "theDay < startOfToday" "file_exists st (file_name env theDay counter)"
  then show "((env, startOfToday, theDay, counter + pageCacheCrunchingBatchSize, st),
              (env, startOfToday, theDay, counter, st))
        \<in> (\<lambda>(env, startOfToday, theDay, counter, st). nat (startOfToday - theDay))
                   <*mlex*> measure (\<lambda>(env, startOfToday, theDay, counter, st). crunch_measure env theDay counter st)"
    by (simp add: mlex_iff measure_skip)
next
  fix env :: crunch_env and startOfToday theDay :: int and counter :: nat and st :: storage
  assume "theDay < startOfToday"
  then show "((env, startOfToday, theDay + 1, 0, st), (env, startOfToday, theDay, counter, st))
        \<in> (\<lambda>(env, startOfToday, theDay, counter, st). nat (startOfToday - theDay))
                   <*mlex*> measure (\<lambda>(env, startOfToday, theDay, counter, st). crunch_measure env theDay counter st)"
    by (simp add: mlex_iff)
next
  fix env :: crunch_env and startOfToday theDay :: int and counter :: nat and st :: storage
  assume "theDay < startOfToday" "query env theDay counter \<noteq> []"
  then show "((env, startOfToday, theDay, counter + pageCacheCrunchingBatchSize,
               save (file_name env theDay counter) (crunchCacheRecords env (query env theDay counter)) st),
              (env, startOfToday, theDay, counter, st))
        \<in> (\<lambda>(env, startOfToday, theDay, counter, st). nat (startOfToday - theDay))
                   <*mlex*> measure (\<lambda>(env, startOfToday, theDay, counter, st). crunch_measure env theDay counter st)"
    by (simp add: mlex_iff measure_upload)
qed

declare crunchLoop.simps [simp del]

text \<open>
  \<^verbatim>\<open>crunchPageCache\<close> at the instant \<open>now\<close> (milliseconds since the epoch): the
  window runs from the UTC day of \<open>now - pageCacheCrunchingTMinus\<close> up to, and excluding,
  the UTC day of \<open>now\<close>.
\<close>

definition crunchPageCache :: "crunch_env \<Rightarrow> int \<Rightarrow> storage \<Rightarrow> action list \<times> storage" where
  "crunchPageCache env now st =
     crunchLoop env (utc_day now) (utc_day (now - pageCacheCrunchingTMinus)) 0 st"

fun uploads :: "action list \<Rightarrow> (string \<times> string list) list" where
  "uploads [] = []"
| "uploads (Upload fileName content # acts) = (fileName, content) # uploads acts"
| "uploads (_ # acts) = uploads acts"

fun queries :: "action list \<Rightarrow> (int \<times> nat) list" where
  "queries [] = []"
| "queries (Query theDay offset n # acts) = (theDay, offset) # queries acts"
| "queries (_ # acts) = queries acts"

subsection \<open>Idempotence of the cruncher\<close>

text \<open>
  A day is covered from a counter on when every batch offset from there that still has
  records has its file in the bucket.
\<close>

definition covered :: "crunch_env \<Rightarrow> storage \<Rightarrow> int \<Rightarrow> nat \<Rightarrow> bool" where
  "covered env st theDay counter =
     (\<forall>k. counter + k * pageCacheCrunchingBatchSize < length (day_records env theDay)
          \<longrightarrow> file_exists st (file_name env theDay (counter + k * pageCacheCrunchingBatchSize)))"

lemma covered_step:
  "covered env st theDay counter \<Longrightarrow> covered env st theDay (counter + pageCacheCrunchingBatchSize)"
  unfolding covered_def
proof (intro allI impI)
  fix k
  assume a: "\<forall>k. counter + k * pageCacheCrunchingBatchSize < length (day_records env theDay)
          \<longrightarrow> file_exists st (file_name env theDay (counter + k * pageCacheCrunchingBatchSize))"
    and b: "counter + pageCacheCrunchingBatchSize + k * pageCacheCrunchingBatchSize < length (day_records env theDay)"
  from a [rule_format, of "Suc k"] b
  show "file_exists st (file_name env theDay (counter + pageCacheCrunchingBatchSize + k * pageCacheCrunchingBatchSize))"
    by (simp add: add.assoc)
qed

lemma covered_head:
  "covered env st theDay counter \<Longrightarrow> counter < length (day_records env theDay)
     \<Longrightarrow> file_exists st (file_name env theDay counter)"
  unfolding covered_def by (drule spec [of _ 0]) simp

lemma query_nonempty_iff:
  "query env theDay counter \<noteq> [] \<longleftrightarrow> counter < length (day_records env theDay)"
  by (auto simp: query_def pageCacheCrunchingBatchSize_def)

lemma uploads_emit_skip [simp]: "uploads (fst (emit [Skip f] r)) = uploads (fst r)"
  by (simp add: emit_def)

lemma uploads_emit_query [simp]: "uploads (fst (emit [Query d c n] r)) = uploads (fst r)"
  by (simp add: emit_def)

lemma snd_emit [simp]: "snd (emit acts r) = snd r"
  by (simp add: emit_def)

lemma second_run_idle:
  "(theDay < startOfToday \<longrightarrow> covered env st theDay counter) \<Longrightarrow>
   (\<forall>d. theDay < d \<and> d < startOfToday \<longrightarrow> covered env st d 0) \<Longrightarrow>
   uploads (fst (crunchLoop env startOfToday theDay counter st)) = [] \<and>
   snd (crunchLoop env startOfToday theDay counter st) = st"
proof (induction env startOfToday theDay counter st rule: crunchLoop.induct)
  case (1 env startOfToday theDay counter st)
  show ?case
  proof (cases "theDay < startOfToday")
    case False
    then show ?thesis by (subst (1 2) crunchLoop.simps) simp
  next
    case lt: True
    then have cov: "covered env st theDay counter" using "1.prems"(1) by simp
    show ?thesis
    proof (cases "file_exists st (file_name env theDay counter)")
      case True
      have "uploads (fst (crunchLoop env startOfToday theDay (counter + pageCacheCrunchingBatchSize) st)) = [] \<and>
            snd (crunchLoop env startOfToday theDay (counter + pageCacheCrunchingBatchSize) st) = st"
        using "1.IH"(1) [OF lt True] covered_step [OF cov] "1.prems"(2) by blast
      with lt True show ?thesis by (subst (1 2) crunchLoop.simps) simp
    next
      case nex: False
      then have emp: "query env theDay counter = []"
        using covered_head [OF cov] query_nonempty_iff by blast
      have "theDay + 1 < startOfToday \<longrightarrow> covered env st (theDay + 1) 0"
        using "1.prems"(2) by simp
      moreover have "\<forall>d. theDay + 1 < d \<and> d < startOfToday \<longrightarrow> covered env st d 0"
        using "1.prems"(2) by simp
      ultimately have "uploads (fst (crunchLoop env startOfToday (theDay + 1) 0 st)) = [] \<and>
            snd (crunchLoop env startOfToday (theDay + 1) 0 st) = st"
        using "1.IH"(2) [OF lt nex emp] by blast
      with lt nex emp show ?thesis by (subst (1 2) crunchLoop.simps) simp
    qed
  qed
qed


lemma file_exists_save: "file_exists (save f c st) g \<longleftrightarrow> g = f \<or> file_exists st g"
  by (auto simp: file_exists_def save_def)

lemma covered_empty:
  "query env theDay counter = [] \<Longrightarrow> covered env st theDay counter"
  using query_nonempty_iff [of env theDay counter] by (simp add: covered_def)

lemma covered_extend:
  assumes "file_exists st (file_name env theDay counter)"
    and "covered env st theDay (counter + pageCacheCrunchingBatchSize)"
  shows "covered env st theDay counter"
  unfolding covered_def
proof (intro allI impI)
  fix k
  assume b: "counter + k * pageCacheCrunchingBatchSize < length (day_records env theDay)"
  show "file_exists st (file_name env theDay (counter + k * pageCacheCrunchingBatchSize))"
  proof (cases k)
    case 0
    with assms(1) show ?thesis by simp
  next
    case (Suc j)
    with b assms(2) [unfolded covered_def, rule_format, of j] show ?thesis
      by (simp add: add.assoc)
  qed
qed

lemma first_run_covers:
  "(\<forall>f. file_exists st f \<longrightarrow> file_exists (snd (crunchLoop env startOfToday theDay counter st)) f) \<and>
   (theDay < startOfToday \<longrightarrow>
      covered env (snd (crunchLoop env startOfToday theDay counter st)) theDay counter) \<and>
   (\<forall>d. theDay < d \<and> d < startOfToday \<longrightarrow>
      covered env (snd (crunchLoop env startOfToday theDay counter st)) d 0)"
proof (induction env startOfToday theDay counter st rule: crunchLoop.induct)
  case (1 env startOfToday theDay counter st)
  let ?B = pageCacheCrunchingBatchSize
  show ?case
  proof (cases "theDay < startOfToday")
    case False
    then have "snd (crunchLoop env startOfToday theDay counter st) = st"
      by (subst crunchLoop.simps) simp
    with False show ?thesis by auto
  next
    case lt: True
    show ?thesis
    proof (cases "file_exists st (file_name env theDay counter)")
      case True
      let ?r = "snd (crunchLoop env startOfToday theDay (counter + ?B) st)"
      have eq: "snd (crunchLoop env startOfToday theDay counter st) = ?r"
        using lt True by (subst crunchLoop.simps) simp
      note ih = "1.IH"(1) [OF lt True]
      have "covered env ?r theDay counter"
        using ih lt True by (blast intro: covered_extend)
      with ih show ?thesis unfolding eq by blast
    next
      case nex: False
      show ?thesis
      proof (cases "query env theDay counter = []")
        case emp: True
        let ?r = "snd (crunchLoop env startOfToday (theDay + 1) 0 st)"
        have eq: "snd (crunchLoop env startOfToday theDay counter st) = ?r"
          using lt nex emp by (subst crunchLoop.simps) simp
        note ih = "1.IH"(2) [OF lt nex emp]
        have later: "covered env ?r d 0" if "theDay < d" "d < startOfToday" for d
        proof (cases "d = theDay + 1")
          case True
          with that ih show ?thesis by simp
        next
          case False
          with that have "theDay + 1 < d" by simp
          with that ih show ?thesis by blast
        qed
        show ?thesis unfolding eq
          using ih later covered_empty [OF emp] by blast
      next
        case ne: False
        let ?f = "file_name env theDay counter"
        let ?st = "save ?f (crunchCacheRecords env (query env theDay counter)) st"
        let ?r = "snd (crunchLoop env startOfToday theDay (counter + ?B) ?st)"
        have eq: "snd (crunchLoop env startOfToday theDay counter st) = ?r"
          using lt nex ne by (subst crunchLoop.simps) simp
        note ih = "1.IH"(3) [OF lt nex ne]
        have mono: "file_exists ?r f" if "file_exists st f" for f
          using that ih by (simp add: file_exists_save)
        have "file_exists ?r ?f"
          using ih by (simp add: file_exists_save)
        then have "covered env ?r theDay counter"
          using ih lt by (blast intro: covered_extend)
        with ih mono show ?thesis unfolding eq by blast
      qed
    qed
  qed
qed

lemma crunch_idempotent:
  "uploads (fst (crunchPageCache env now (snd (crunchPageCache env now st)))) = [] \<and>
   snd (crunchPageCache env now (snd (crunchPageCache env now st))) = snd (crunchPageCache env now st)"
  unfolding crunchPageCache_def
  by (rule second_run_idle) (use first_run_covers in blast)+

lemma queries_emit_skip [simp]: "queries (fst (emit [Skip f] r)) = queries (fst r)"
  by (simp add: emit_def)

lemma queries_emit_query [simp]: "queries (fst (emit [Query d c n] r)) = (d, c) # queries (fst r)"
  by (simp add: emit_def)

lemma queries_emit_upload [simp]:
  "queries (fst (emit [Query d c n, Upload f x] r)) = (d, c) # queries (fst r)"
  by (simp add: emit_def)

lemma uploads_emit_upload [simp]:
  "uploads (fst (emit [Query d c n, Upload f x] r)) = (f, x) # uploads (fst r)"
  by (simp add: emit_def)

lemma queried_files_absent:
  "(d, c) \<in> set (queries (fst (crunchLoop env startOfToday theDay counter st)))
     \<Longrightarrow> \<not> file_exists st (file_name env d c)"
proof (induction env startOfToday theDay counter st rule: crunchLoop.induct)
  case (1 env startOfToday theDay counter st)
  show ?case
  proof (cases "theDay < startOfToday")
    case False
    with "1.prems" show ?thesis by (subst (asm) crunchLoop.simps) simp
  next
    case lt: True
    show ?thesis
    proof (cases "file_exists st (file_name env theDay counter)")
      case True
      with lt "1.prems" "1.IH"(1) show ?thesis
        by (subst (asm) crunchLoop.simps) simp
    next
      case nex: False
      show ?thesis
      proof (cases "query env theDay counter = []")
        case emp: True
        with lt nex "1.prems" "1.IH"(2) show ?thesis
          by (subst (asm) crunchLoop.simps) auto
      next
        case ne: False
        with lt nex "1.prems" "1.IH"(3) show ?thesis
          by (subst (asm) crunchLoop.simps) (auto simp: file_exists_save)
      qed
    qed
  qed
qed

text \<open>
  C7. Running the cruncher a second time at the same instant, on the bucket the first
  run left: no pair \<open>(day, offset)\<close> whose file is in the bucket is queried, nothing is
  uploaded, and the bucket is unchanged.
\<close>

theorem cruncher_second_run:
  "(\<forall>theDay offset. file_exists (snd (crunchPageCache env now st)) (file_name env theDay offset)
       \<longrightarrow> (theDay, offset) \<notin> set (queries (fst (crunchPageCache env now (snd (crunchPageCache env now st)))))) \<and>
   uploads (fst (crunchPageCache env now (snd (crunchPageCache env now st)))) = [] \<and>
   snd (crunchPageCache env now (snd (crunchPageCache env now st))) = snd (crunchPageCache env now st)"
proof (intro conjI allI impI)
  fix theDay offset
  assume "file_exists (snd (crunchPageCache env now st)) (file_name env theDay offset)"
  then show "(theDay, offset) \<notin> set (queries (fst (crunchPageCache env now (snd (crunchPageCache env now st)))))"
    unfolding crunchPageCache_def using queried_files_absent by blast
qed (simp_all add: crunch_idempotent)

text \<open>A store with one record, crawled on the last day before the epoch.\<close>

definition env0 :: crunch_env where
  "env0 = \<lparr> collection = [\<lparr> crawled_id = ''a'', createdAt = - 1 \<rparr>],
            formatDay = (\<lambda>d. if d = - 1 then ''1969-12-31'' else ''other''),
            downloadFile = (\<lambda>p. Some ''{}''),
            JSON_parse = (\<lambda>t. Some \<lparr> href = ''h'', html = '''' \<rparr>),
            formatSnapshot = (\<lambda>m s. Some ''c''),
            JSON_stringify = (\<lambda>u h c. u @ h @ c) \<rparr>"


lemma day_records_env0: "day_records env0 (- 1) = [\<lparr> crawled_id = ''a'', createdAt = - 1 \<rparr>]"
  by (simp add: day_records_def env0_def msPerDay_def)

theorem cruncher_second_run_witness:
  "file_exists (snd (crunchPageCache env0 0 [])) (file_name env0 (- 1) 0) \<and>
   (- 1, 0) \<notin> set (queries (fst (crunchPageCache env0 0 (snd (crunchPageCache env0 0 []))))) \<and>
   uploads (fst (crunchPageCache env0 0 (snd (crunchPageCache env0 0 [])))) = [] \<and>
   snd (crunchPageCache env0 0 (snd (crunchPageCache env0 0 []))) = snd (crunchPageCache env0 0 [])"
proof -
  have win: "utc_day (0 - pageCacheCrunchingTMinus) = - 31" "utc_day 0 = 0"
    by (simp_all add: utc_day_def pageCacheCrunchingTMinus_def msPerDay_def)
  have "covered env0 (snd (crunchPageCache env0 0 [])) (- 1) 0"
    unfolding crunchPageCache_def win
    using first_run_covers [of "[]" env0 0 "- 31" 0] by simp
  then have ex: "file_exists (snd (crunchPageCache env0 0 [])) (file_name env0 (- 1) 0)"
    by (rule covered_head) (simp add: day_records_env0)
  with cruncher_second_run [of env0 0 "[]"] show ?thesis
    by blast
qed

subsection \<open>Object names and batches\<close>

lemma upload_names:
  "(f, x) \<in> set (uploads (fst (crunchLoop env startOfToday theDay counter st))) \<Longrightarrow>
   \<exists>j. counter = pageCacheCrunchingBatchSize * j \<Longrightarrow>
   \<exists>d k. theDay \<le> d \<and> d < startOfToday \<and> f = file_name env d (pageCacheCrunchingBatchSize * k)
       \<and> x = crunchCacheRecords env (query env d (pageCacheCrunchingBatchSize * k))"
proof (induction env startOfToday theDay counter st rule: crunchLoop.induct)
  case (1 env startOfToday theDay counter st)
  let ?B = pageCacheCrunchingBatchSize
  from "1.prems"(2) obtain j where j: "counter = ?B * j" ..
  then have next_j: "\<exists>j'. counter + ?B = ?B * j'"
    by (intro exI [of _ "Suc j"]) simp
  have zero_j: "\<exists>j'. (0::nat) = ?B * j'"
    by (intro exI [of _ 0]) simp
  show ?case
  proof (cases "theDay < startOfToday")
    case False
    with "1.prems"(1) show ?thesis by (subst (asm) crunchLoop.simps) simp
  next
    case lt: True
    show ?thesis
    proof (cases "file_exists st (file_name env theDay counter)")
      case True
      with lt "1.prems"(1) have "(f, x) \<in> set (uploads (fst (crunchLoop env startOfToday theDay (counter + ?B) st)))"
        by (subst (asm) crunchLoop.simps) simp
      from "1.IH"(1) [OF lt True this next_j] show ?thesis .
    next
      case nex: False
      show ?thesis
      proof (cases "query env theDay counter = []")
        case emp: True
        with lt nex "1.prems"(1) have "(f, x) \<in> set (uploads (fst (crunchLoop env startOfToday (theDay + 1) 0 st)))"
          by (subst (asm) crunchLoop.simps) simp
        from "1.IH"(2) [OF lt nex emp this zero_j]
        obtain d k where "theDay + 1 \<le> d" "d < startOfToday"
          "f = file_name env d (?B * k)" "x = crunchCacheRecords env (query env d (?B * k))"
          by blast
        then have "theDay \<le> d \<and> d < startOfToday \<and> f = file_name env d (?B * k)
            \<and> x = crunchCacheRecords env (query env d (?B * k))"
          by simp
        then show ?thesis by blast
      next
        case ne: False
        let ?f = "file_name env theDay counter"
        let ?x = "crunchCacheRecords env (query env theDay counter)"
        from lt nex ne "1.prems"(1)
        have "(f, x) = (?f, ?x) \<or>
              (f, x) \<in> set (uploads (fst (crunchLoop env startOfToday theDay (counter + ?B) (save ?f ?x st))))"
          by (subst (asm) crunchLoop.simps) auto
        then show ?thesis
        proof
          assume "(f, x) = (?f, ?x)"
          with lt j show ?thesis by auto
        next
          assume "(f, x) \<in> set (uploads (fst (crunchLoop env startOfToday theDay (counter + ?B) (save ?f ?x st))))"
          from "1.IH"(3) [OF lt nex ne this next_j] show ?thesis .
        qed
      qed
    qed
  qed
qed

lemma digit_chars:
  "digit_char 0 = CHR ''0''" "digit_char (Suc 0) = CHR ''1''" "digit_char 2 = CHR ''2''"
  unfolding digit_char_def by code_simp+

lemma show_nat_digit: "n < 10 \<Longrightarrow> show_nat n = [digit_char n]"
  by (subst show_nat.simps) simp

lemma show_nat_step: "10 \<le> n \<Longrightarrow> show_nat n = show_nat (n div 10) @ [digit_char (n mod 10)]"
  by (subst show_nat.simps) simp

lemma show_nat_10000: "show_nat 10000 = ''10000''"
  by (simp add: show_nat_step show_nat_digit digit_chars)

lemma show_nat_20000: "show_nat 20000 = ''20000''"
  by (simp add: show_nat_step show_nat_digit digit_chars)

lemma show_nat_2: "show_nat 2 = ''2''"
  by (simp add: show_nat_digit digit_chars)

lemma file_name_literal:
  "file_name env d (pageCacheCrunchingBatchSize * k) =
     ''crunched-pages/r2/'' @ formatDay env d @ ''-''
       @ (if k = 0 then ''00000'' else show_nat (10000 * k)) @ ''.jsonl''"
  by (simp add: file_name_def offset_label_def pageCacheCrunchingPrefix_def rev_no_def
        pageCacheCrunchingBatchSize_def show_nat_2)


lemma length_map_filter_all:
  "\<forall>r \<in> set xs. f r \<noteq> None \<Longrightarrow> length (List.map_filter f xs) = length xs"
  by (induction xs) (auto split: option.splits)

lemma crunch_lines_length:
  assumes "\<forall>r \<in> set (day_records env theDay). crunch_line env r \<noteq> None"
  shows "length (crunchCacheRecords env (query env theDay offset)) = length (query env theDay offset)"
  unfolding crunchCacheRecords_def
proof (rule length_map_filter_all)
  show "\<forall>r \<in> set (query env theDay offset). crunch_line env r \<noteq> None"
    using assms in_set_takeD in_set_dropD unfolding query_def by metis
qed

lemma length_query:
  "length (query env theDay offset) = min 10000 (length (day_records env theDay) - offset)"
  by (simp add: query_def pageCacheCrunchingBatchSize_def)

lemma crunchLoop_upload:
  assumes "theDay < startOfToday" "\<not> file_exists st (file_name env theDay counter)"
    "counter < length (day_records env theDay)"
  shows "uploads (fst (crunchLoop env startOfToday theDay counter st)) =
     (file_name env theDay counter, crunchCacheRecords env (query env theDay counter))
       # uploads (fst (crunchLoop env startOfToday theDay (counter + pageCacheCrunchingBatchSize)
            (save (file_name env theDay counter) (crunchCacheRecords env (query env theDay counter)) st)))"
  using assms query_nonempty_iff [of env theDay counter]
  by (subst crunchLoop.simps) simp

lemma crunchLoop_next_day:
  assumes "theDay < startOfToday" "\<not> file_exists st (file_name env theDay counter)"
    "length (day_records env theDay) \<le> counter"
  shows "uploads (fst (crunchLoop env startOfToday theDay counter st)) =
     uploads (fst (crunchLoop env startOfToday (theDay + 1) 0 st))"
  using assms query_nonempty_iff [of env theDay counter]
  by (subst crunchLoop.simps) simp

lemma day_24999:
  assumes lt: "theDay < startOfToday"
    and len: "length (day_records env theDay) = 24999"
    and fresh: "\<forall>c. \<not> file_exists st (file_name env theDay c)"
    and ok: "\<forall>r \<in> set (day_records env theDay). crunch_line env r \<noteq> None"
  shows "\<exists>c0 c1 c2 st'. length c0 = 10000 \<and> length c1 = 10000 \<and> length c2 = 4999 \<and>
     uploads (fst (crunchLoop env startOfToday theDay 0 st)) =
       (file_name env theDay 0, c0) # (file_name env theDay 10000, c1) # (file_name env theDay 20000, c2)
         # uploads (fst (crunchLoop env startOfToday (theDay + 1) 0 st'))"
proof -
  let ?c = "\<lambda>off. crunchCacheRecords env (query env theDay off)"
  let ?st1 = "save (file_name env theDay 0) (?c 0) st"
  let ?st2 = "save (file_name env theDay 10000) (?c 10000) ?st1"
  let ?st3 = "save (file_name env theDay 20000) (?c 20000) ?st2"
  have ne: "file_name env theDay a \<noteq> file_name env theDay b" if "a \<noteq> b" for a b
    using that file_name_inj by blast
  have s0: "uploads (fst (crunchLoop env startOfToday theDay 0 st)) =
      (file_name env theDay 0, ?c 0) # uploads (fst (crunchLoop env startOfToday theDay 10000 ?st1))"
    using crunchLoop_upload [OF lt, of st env 0] fresh len
    by (simp add: pageCacheCrunchingBatchSize_def)
  have s1: "uploads (fst (crunchLoop env startOfToday theDay 10000 ?st1)) =
      (file_name env theDay 10000, ?c 10000) # uploads (fst (crunchLoop env startOfToday theDay 20000 ?st2))"
    using crunchLoop_upload [OF lt, of ?st1 env 10000] fresh len ne [of 10000 0]
    by (simp add: pageCacheCrunchingBatchSize_def file_exists_save)
  have s2: "uploads (fst (crunchLoop env startOfToday theDay 20000 ?st2)) =
      (file_name env theDay 20000, ?c 20000) # uploads (fst (crunchLoop env startOfToday theDay 30000 ?st3))"
    using crunchLoop_upload [OF lt, of ?st2 env 20000] fresh len ne [of 20000 0] ne [of 20000 10000]
    by (simp add: pageCacheCrunchingBatchSize_def file_exists_save)
  have s3: "uploads (fst (crunchLoop env startOfToday theDay 30000 ?st3)) =
      uploads (fst (crunchLoop env startOfToday (theDay + 1) 0 ?st3))"
    using crunchLoop_next_day [OF lt, of ?st3 env 30000] fresh len
      ne [of 30000 0] ne [of 30000 10000] ne [of 30000 20000]
    by (simp add: file_exists_save)
  have l0: "length (?c 0) = 10000" and l1: "length (?c 10000) = 10000" and l2: "length (?c 20000) = 4999"
    using len by (simp_all add: crunch_lines_length [OF ok] length_query)
  show ?thesis
    using s0 s1 s2 s3 l0 l1 l2 by metis
qed


lemma file_name_0: "file_name env d 0 = ''crunched-pages/r2/'' @ formatDay env d @ ''-00000.jsonl''"
  using file_name_literal [of env d 0] by simp

lemma file_name_10000: "file_name env d 10000 = ''crunched-pages/r2/'' @ formatDay env d @ ''-10000.jsonl''"
  using file_name_literal [of env d 1] by (simp add: pageCacheCrunchingBatchSize_def show_nat_10000)

lemma file_name_20000: "file_name env d 20000 = ''crunched-pages/r2/'' @ formatDay env d @ ''-20000.jsonl''"
  using file_name_literal [of env d 2] by (simp add: pageCacheCrunchingBatchSize_def show_nat_20000)

text \<open>
  C8. Every file the cruncher uploads is named
  \<open>crunched-pages/r2/<day>-<label>.jsonl\<close> for a day of the window and a batch number
  \<open>k\<close>, the label being the literal \<open>00000\<close> for the first batch and the decimal
  rendering of the offset \<open>10000 * k\<close> otherwise, and holds the lines of that batch.
  A day with 24 999 records, none of whose files is in the bucket and all of whose
  snapshots format, yields exactly the files labelled \<open>00000\<close>, \<open>10000\<close> and
  \<open>20000\<close>, of 10 000, 10 000 and 4 999 lines, before the loop moves to the next day.
\<close>

theorem crunch_object_names:
  "(\<forall>(fileName, content) \<in> set (uploads (fst (crunchPageCache env now st))).
      \<exists>theDay k. utc_day (now - pageCacheCrunchingTMinus) \<le> theDay \<and> theDay < utc_day now \<and>
        fileName = ''crunched-pages/r2/'' @ formatDay env theDay @ ''-''
                     @ (if k = 0 then ''00000'' else show_nat (10000 * k)) @ ''.jsonl'' \<and>
        content = crunchCacheRecords env (query env theDay (10000 * k)))
   \<and>
   (d < startOfToday \<and> length (day_records env d) = 24999 \<and>
    (\<forall>c. \<not> file_exists st (file_name env d c)) \<and>
    (\<forall>r \<in> set (day_records env d). crunch_line env r \<noteq> None)
    \<longrightarrow> (\<exists>c0 c1 c2 st'. length c0 = 10000 \<and> length c1 = 10000 \<and> length c2 = 4999 \<and>
          uploads (fst (crunchLoop env startOfToday d 0 st)) =
            (''crunched-pages/r2/'' @ formatDay env d @ ''-00000.jsonl'', c0)
            # (''crunched-pages/r2/'' @ formatDay env d @ ''-10000.jsonl'', c1)
            # (''crunched-pages/r2/'' @ formatDay env d @ ''-20000.jsonl'', c2)
            # uploads (fst (crunchLoop env startOfToday (d + 1) 0 st'))))"
proof (intro conjI impI)
  show "\<forall>(fileName, content) \<in> set (uploads (fst (crunchPageCache env now st))).
      \<exists>theDay k. utc_day (now - pageCacheCrunchingTMinus) \<le> theDay \<and> theDay < utc_day now \<and>
        fileName = ''crunched-pages/r2/'' @ formatDay env theDay @ ''-''
                     @ (if k = 0 then ''00000'' else show_nat (10000 * k)) @ ''.jsonl'' \<and>
        content = crunchCacheRecords env (query env theDay (10000 * k))"
  proof (intro ballI, clarify)
    fix f x
    assume "(f, x) \<in> set (uploads (fst (crunchPageCache env now st)))"
    then have "(f, x) \<in> set (uploads (fst (crunchLoop env (utc_day now)
                   (utc_day (now - pageCacheCrunchingTMinus)) 0 st)))"
      by (simp add: crunchPageCache_def)
    moreover have "\<exists>j. (0::nat) = pageCacheCrunchingBatchSize * j"
      by (intro exI [of _ 0]) simp
    ultimately obtain theDay k where
      "utc_day (now - pageCacheCrunchingTMinus) \<le> theDay" "theDay < utc_day now"
      "f = file_name env theDay (pageCacheCrunchingBatchSize * k)"
      "x = crunchCacheRecords env (query env theDay (pageCacheCrunchingBatchSize * k))"
      using upload_names by blast
    then have "utc_day (now - pageCacheCrunchingTMinus) \<le> theDay \<and> theDay < utc_day now \<and>
        f = ''crunched-pages/r2/'' @ formatDay env theDay @ ''-''
                     @ (if k = 0 then ''00000'' else show_nat (10000 * k)) @ ''.jsonl'' \<and>
        x = crunchCacheRecords env (query env theDay (10000 * k))"
      unfolding file_name_literal by (simp add: pageCacheCrunchingBatchSize_def)
    then show "\<exists>theDay k. utc_day (now - pageCacheCrunchingTMinus) \<le> theDay \<and> theDay < utc_day now \<and>
        f = ''crunched-pages/r2/'' @ formatDay env theDay @ ''-''
                     @ (if k = 0 then ''00000'' else show_nat (10000 * k)) @ ''.jsonl'' \<and>
        x = crunchCacheRecords env (query env theDay (10000 * k))"
      by (intro exI [of _ theDay] exI [of _ k])
  qed
next
  assume a: "d < startOfToday \<and> length (day_records env d) = 24999 \<and>
    (\<forall>c. \<not> file_exists st (file_name env d c)) \<and>
    (\<forall>r \<in> set (day_records env d). crunch_line env r \<noteq> None)"
  then have a1: "d < startOfToday" and a2: "length (day_records env d) = 24999"
    and a3: "\<forall>c. \<not> file_exists st (file_name env d c)"
    and a4: "\<forall>r \<in> set (day_records env d). crunch_line env r \<noteq> None"
    by blast+
  show "\<exists>c0 c1 c2 st'. length c0 = 10000 \<and> length c1 = 10000 \<and> length c2 = 4999 \<and>
          uploads (fst (crunchLoop env startOfToday d 0 st)) =
            (''crunched-pages/r2/'' @ formatDay env d @ ''-00000.jsonl'', c0)
            # (''crunched-pages/r2/'' @ formatDay env d @ ''-10000.jsonl'', c1)
            # (''crunched-pages/r2/'' @ formatDay env d @ ''-20000.jsonl'', c2)
            # uploads (fst (crunchLoop env startOfToday (d + 1) 0 st'))"
    by (rule day_24999 [OF a1 a2 a3 a4, unfolded file_name_0 file_name_10000 file_name_20000])
qed

text \<open>A store holding 24 999 records of the last day before the epoch.\<close>

definition envW :: crunch_env where
  "envW = env0 \<lparr> collection := replicate 24999 \<lparr> crawled_id = ''a'', createdAt = - 1 \<rparr> \<rparr>"

lemma filter_replicate_all: "P x \<Longrightarrow> filter P (replicate n x) = replicate n x"
  by (induction n) simp_all

lemma day_records_envW:
  "length (day_records envW (- 1)) = 24999"
  "set (day_records envW (- 1)) \<subseteq> {\<lparr> crawled_id = ''a'', createdAt = - 1 \<rparr>}"
  by (simp_all add: day_records_def envW_def env0_def msPerDay_def filter_replicate_all)

theorem crunch_object_names_witness:
  "map fst (uploads (fst (crunchLoop envW 0 (- 1) 0 []))) =
     [''crunched-pages/r2/1969-12-31-00000.jsonl'',
      ''crunched-pages/r2/1969-12-31-10000.jsonl'',
      ''crunched-pages/r2/1969-12-31-20000.jsonl''] \<and>
   map (\<lambda>u. length (snd u)) (uploads (fst (crunchLoop envW 0 (- 1) 0 []))) = [10000, 10000, 4999]"
proof -
  have h1: "(- 1 :: int) < 0" by simp
  have h3: "\<forall>c. \<not> file_exists [] (file_name envW (- 1) c)"
    by (simp add: file_exists_def)
  have "crunch_line envW \<lparr> crawled_id = ''a'', createdAt = - 1 \<rparr> \<noteq> None"
    by (simp add: crunch_line_def envW_def env0_def)
  then have h4: "\<forall>r \<in> set (day_records envW (- 1)). crunch_line envW r \<noteq> None"
    using day_records_envW(2) by blast
  have fmt: "formatDay envW (- 1) = ''1969-12-31''"
    by (simp add: envW_def env0_def)
  have fin: "uploads (fst (crunchLoop envW 0 0 0 st')) = []" for st'
    by (subst crunchLoop.simps) simp
  have hyp: "- 1 < (0::int) \<and> length (day_records envW (- 1)) = 24999 \<and>
    (\<forall>c. \<not> file_exists [] (file_name envW (- 1) c)) \<and>
    (\<forall>r \<in> set (day_records envW (- 1)). crunch_line envW r \<noteq> None)"
    using h1 day_records_envW(1) h3 h4 by (intro conjI)
  from crunch_object_names [of envW 0 "[]" "- 1" 0, THEN conjunct2, THEN mp, OF hyp]
  obtain c0 c1 c2 st' where "length c0 = 10000" "length c1 = 10000" "length c2 = 4999"
    "uploads (fst (crunchLoop envW 0 (- 1) 0 [])) =
            (''crunched-pages/r2/'' @ formatDay envW (- 1) @ ''-00000.jsonl'', c0)
            # (''crunched-pages/r2/'' @ formatDay envW (- 1) @ ''-10000.jsonl'', c1)
            # (''crunched-pages/r2/'' @ formatDay envW (- 1) @ ''-20000.jsonl'', c2)
            # uploads (fst (crunchLoop envW 0 (- 1 + 1) 0 st'))"
    by (elim exE conjE)
  then show ?thesis
    by (simp add: fmt fin)
qed

section \<open>Image expansion of the prompt (InterrogatorHost.expandMarkdown)\<close>

text \<open>
  A JavaScript string is a sequence of UTF-16 code units. \<open>js\<close> turns a literal of
  the theory into one.
\<close>

type_synonym code_unit = nat
type_synonym jstring = "code_unit list"









record url =
  protocol :: jstring
  pathname :: jstring















subsection \<open>What the regular expression finds\<close>














subsection \<open>Merging\<close>






section \<open>Snapshot pipeline (utils/pdf.ts, PuppeteerControl.scrap)\<close>

text \<open>
  The value of the \<^verbatim>\<open>snapshot\<close> variable: \<^verbatim>\<open>undefined\<close> before the first report,
  \<^verbatim>\<open>null\<close> when Readability finds no article, or an object. Equality of two
  \<open>Obj\<close> values stands for the identity that \<^verbatim>\<open>===\<close> compares.
\<close>

datatype 'a jsval = Undefined | Null | Obj 'a

type_synonym bytes = "nat list"

datatype promise_state = Pending | Resolved | Rejected string

record 'a PageResult =
  snapshot :: "'a jsval"
  screenshot :: bytes

text \<open>
  What happens around the generator, in the order it happens: the page emits a
  \<^verbatim>\<open>snapshot\<close> event, the navigation promise settles (\<open>None\<close>: resolved, \<open>Some e\<close>:
  rejected with \<open>e\<close>, as on the 30 s timeout), the \<^verbatim>\<open>await\<close> the generator is blocked
  on (\<^verbatim>\<open>page.screenshot()\<close> or \<^verbatim>\<open>page.evaluate(...)\<close>) settles, the consumer asks
  for the next item, or the consumer closes the generator.
\<close>

datatype 'a page_event = Snapshot "'a jsval" | NavSettled "string option" | Settle | Next | Return

text \<open>
  The page and the pool: whether \<^verbatim>\<open>pagePool.acquire()\<close> and
  \<^verbatim>\<open>pagePool.destroy(page)\<close> reject, what the \<open>k\<close>-th call of
  \<^verbatim>\<open>page.screenshot()\<close> gives, and what the Readability parse evaluated in the page
  after the navigation gives (\<open>Inl\<close>: the call rejects).
\<close>

record 'a scrap_env =
  acquire :: "string option"
  page_screenshot :: "nat \<Rightarrow> string + bytes"
  page_evaluate :: "string + 'a jsval"
  destroy :: "string option"

text \<open>
  The variables of the generator, the state of the navigation promise, the number of
  screenshots taken, and what the process is told of a promise that rejects with no
  handler attached (its \<^verbatim>\<open>unhandledRejection\<close> event).
\<close>

record 'a scrap_state =
  snapshot_var :: "'a jsval"
  finalized :: bool
  gotoPromise :: promise_state
  shots :: nat
  unhandled :: "string option"

datatype completion = Completed | Threw string | Suspended

text \<open>
  Where the generator stands: in \<^verbatim>\<open>Promise.race\<close>, in \<^verbatim>\<open>page.screenshot()\<close>, in
  \<^verbatim>\<open>page.evaluate\<close> (holding the screenshot), at the \<^verbatim>\<open>yield\<close> inside the loop, or
  at the \<^verbatim>\<open>yield\<close> before \<^verbatim>\<open>break\<close>.
\<close>

datatype phase = Racing | Shooting | Evaluating bytes | AtYield | AtFinalYield

text \<open>The handler \<^verbatim>\<open>hdl\<close> installed on the page.\<close>

definition hdl :: "'a scrap_state \<Rightarrow> 'a jsval \<Rightarrow> 'a scrap_state" where
  "hdl st s = (if snapshot_var st = s then st else st\<lparr>snapshot_var := s\<rparr>)"

text \<open>
  The navigation promise settles. \<^verbatim>\<open>gotoPromise.finally(() => finalized = true)\<close>: the
  callback sets the flag, and the promise that \<^verbatim>\<open>finally\<close> returns settles as the
  navigation promise does. That promise is dropped, so when the navigation rejects it
  rejects with the same error and no handler: the rejection goes to the process. (The
  navigation promise itself is handled, by \<^verbatim>\<open>Promise.race\<close>.)
\<close>

definition settle_goto :: "'a scrap_state \<Rightarrow> string option \<Rightarrow> 'a scrap_state" where
  "settle_goto st r =
     (if gotoPromise st = Pending
      then st\<lparr>finalized := True,
              gotoPromise := (case r of None \<Rightarrow> Resolved | Some e \<Rightarrow> Rejected e),
              unhandled := (case r of None \<Rightarrow> unhandled st | Some e \<Rightarrow> Some e)\<rparr>
      else st)"

definition yield :: "'a PageResult \<Rightarrow> 'a PageResult list \<times> completion \<Rightarrow> 'a PageResult list \<times> completion" where
  "yield r out = (r # fst out, snd out)"

text \<open>
  The body of the \<^verbatim>\<open>try\<close> block. Every throw inside it (a rejected race, screenshot,
  navigation or evaluate) lands in \<^verbatim>\<open>catch (_err) { void 0; }\<close> and the generator
  completes; closing the generator at a \<^verbatim>\<open>yield\<close> completes it as well. A timeline
  that ends while the generator waits leaves it suspended.
\<close>

function scrap_loop ::
    "'a scrap_env \<Rightarrow> phase \<Rightarrow> 'a scrap_state \<Rightarrow> 'a page_event list \<Rightarrow> 'a PageResult list \<times> completion" where
  "scrap_loop env Racing st es =
     (case gotoPromise st of
        Rejected e \<Rightarrow> ([], Completed)
      | Resolved \<Rightarrow> scrap_loop env Shooting st es
      | Pending \<Rightarrow>
         (case es of
            [] \<Rightarrow> ([], Suspended)
          | Snapshot s # es' \<Rightarrow>
              (if snapshot_var st = s then scrap_loop env Racing st es'
               else scrap_loop env Shooting (hdl st s) es')
          | NavSettled r # es' \<Rightarrow> scrap_loop env Racing (settle_goto st r) es'
          | _ # es' \<Rightarrow> scrap_loop env Racing st es'))"
| "scrap_loop env Shooting st [] = ([], Suspended)"
| "scrap_loop env Shooting st (ev # es) =
     (case ev of
        Snapshot s \<Rightarrow> scrap_loop env Shooting (hdl st s) es
      | NavSettled r \<Rightarrow> scrap_loop env Shooting (settle_goto st r) es
      | Settle \<Rightarrow>
         (case page_screenshot env (shots st) of
            Inl e \<Rightarrow> ([], Completed)
          | Inr shot \<Rightarrow>
             (if finalized st then
                (case gotoPromise st of
                   Rejected e \<Rightarrow> ([], Completed)
                 | _ \<Rightarrow> scrap_loop env (Evaluating shot) (st\<lparr>shots := shots st + 1\<rparr>) es)
              else yield \<lparr>snapshot = snapshot_var st, screenshot = shot\<rparr>
                     (scrap_loop env AtYield (st\<lparr>shots := shots st + 1\<rparr>) es)))
      | _ \<Rightarrow> scrap_loop env Shooting st es)"
| "scrap_loop env (Evaluating shot) st [] = ([], Suspended)"
| "scrap_loop env (Evaluating shot) st (ev # es) =
     (case ev of
        Snapshot s \<Rightarrow> scrap_loop env (Evaluating shot) (hdl st s) es
      | Settle \<Rightarrow>
         (case page_evaluate env of
            Inl e \<Rightarrow> ([], Completed)
          | Inr v \<Rightarrow> yield \<lparr>snapshot = v, screenshot = shot\<rparr>
                     (scrap_loop env AtFinalYield (st\<lparr>snapshot_var := v\<rparr>) es))
      | _ \<Rightarrow> scrap_loop env (Evaluating shot) st es)"
| "scrap_loop env AtYield st [] = ([], Suspended)"
| "scrap_loop env AtYield st (ev # es) =
     (case ev of
        Snapshot s \<Rightarrow> scrap_loop env AtYield (hdl st s) es
      | NavSettled r \<Rightarrow> scrap_loop env AtYield (settle_goto st r) es
      | Next \<Rightarrow> scrap_loop env Racing st es
      | Return \<Rightarrow> ([], Completed)
      | Settle \<Rightarrow> scrap_loop env AtYield st es)"
| "scrap_loop env AtFinalYield st [] = ([], Suspended)"
| "scrap_loop env AtFinalYield st (ev # es) =
     (case ev of
        Next \<Rightarrow> ([], Completed)
      | Return \<Rightarrow> ([], Completed)
      | _ \<Rightarrow> scrap_loop env AtFinalYield st es)"
  by pat_completeness auto
termination
  by (relation "measure (\<lambda>(env, ph, st, es). 2 * length es + (if ph = Racing then 1 else 0))") auto

text \<open>
  \<^verbatim>\<open>scrap(url)\<close>: a rejected \<^verbatim>\<open>acquire\<close> is thrown to the consumer (it is outside
  the \<^verbatim>\<open>try\<close>); when the loop is left, the \<^verbatim>\<open>finally\<close> block destroys the page,
  and a rejected \<^verbatim>\<open>destroy\<close> is thrown to the consumer.
\<close>

definition scrap :: "'a scrap_env \<Rightarrow> 'a page_event list \<Rightarrow> 'a PageResult list \<times> completion" where
  "scrap env es =
     (case acquire env of
        Some e \<Rightarrow> ([], Threw e)
      | None \<Rightarrow>
         (let out = scrap_loop env Racing
                      \<lparr>snapshot_var = Undefined, finalized = False, gotoPromise = Pending,
                        shots = 0, unhandled = None\<rparr> es
          in if snd out = Completed then
               (case destroy env of Some e \<Rightarrow> (fst out, Threw e) | None \<Rightarrow> out)
             else out))"

text \<open>
  What the process is told while \<^verbatim>\<open>scrap(url)\<close> runs. The navigation settles whether
  the generator is running, waiting or has completed, so this is read off the timeline
  alone. No navigation is started when \<^verbatim>\<open>acquire\<close> rejects.
\<close>

definition on_navigation :: "'a page_event \<Rightarrow> 'a scrap_state \<Rightarrow> 'a scrap_state" where
  "on_navigation ev st = (case ev of NavSettled r \<Rightarrow> settle_goto st r | _ \<Rightarrow> st)"

definition unhandled_rejection :: "'a scrap_env \<Rightarrow> 'a page_event list \<Rightarrow> string option" where
  "unhandled_rejection env es =
     (case acquire env of
        Some e \<Rightarrow> None
      | None \<Rightarrow>
          unhandled (fold on_navigation es
            \<lparr>snapshot_var = Undefined, finalized = False, gotoPromise = Pending, shots = 0,
              unhandled = None\<rparr>))"


lemma fst_yield [simp]: "fst (yield r out) = r # fst out"
  by (simp add: yield_def)

lemma snd_yield [simp]: "snd (yield r out) = snd out"
  by (simp add: yield_def)

lemma gotoPromise_hdl [simp]: "gotoPromise (hdl st s) = gotoPromise st"
  by (simp add: hdl_def)

lemma finalized_hdl [simp]: "finalized (hdl st s) = finalized st"
  by (simp add: hdl_def)

lemma shots_hdl [simp]: "shots (hdl st s) = shots st"
  by (simp add: hdl_def)

lemma scrap_loop_never_throws: "snd (scrap_loop env ph st es) \<noteq> Threw e"
  by (induction env ph st es rule: scrap_loop.induct)
     (auto split: promise_state.splits list.splits page_event.splits sum.splits)

lemma final_yield_last: "fst (scrap_loop env AtFinalYield st es) = []"
  by (induction es) (auto split: page_event.splits)


lemma settle_goto_not_rejected:
  "\<forall>e. gotoPromise st \<noteq> Rejected e \<Longrightarrow> r = None \<Longrightarrow> gotoPromise (settle_goto st r) \<noteq> Rejected e'"
  by (simp add: settle_goto_def)

lemma scrap_loop_final:
  assumes shots_ok: "\<forall>k. \<exists>shot. page_screenshot env k = Inr shot"
    and ev: "page_evaluate env = Inr v"
  shows "ph \<noteq> AtFinalYield \<Longrightarrow> \<forall>e. gotoPromise st \<noteq> Rejected e \<Longrightarrow>
     \<forall>e. NavSettled (Some e) \<notin> set es \<Longrightarrow> Return \<notin> set es \<Longrightarrow>
     snd (scrap_loop env ph st es) = Completed \<Longrightarrow>
     fst (scrap_loop env ph st es) \<noteq> [] \<and> snapshot (last (fst (scrap_loop env ph st es))) = v"
  using assms
proof (induction env ph st es rule: scrap_loop.induct)
  case (1 env st es)
  show ?case
  proof (cases "gotoPromise st")
    case Pending
    show ?thesis
    proof (cases es)
      case Nil
      with Pending "1.prems" show ?thesis by simp
    next
      case (Cons ev es')
      show ?thesis
      proof (cases ev)
        case (Snapshot s)
        show ?thesis
        proof (cases "snapshot_var st = s")
          case True
          with Pending Cons Snapshot "1.prems" "1.IH"
          show ?thesis by simp
        next
          case False
          with Pending Cons Snapshot "1.prems" "1.IH"
          show ?thesis by simp
        qed
      next
        case (NavSettled r)
        with Cons "1.prems" have r: "r = None" by (cases r) auto
        with Pending Cons NavSettled "1.prems" "1.IH"
        show ?thesis by (simp add: settle_goto_def)
      next
        case Settle
        with Pending Cons "1.prems" "1.IH"
        show ?thesis by simp
      next
        case Next
        with Pending Cons "1.prems" "1.IH"
        show ?thesis by simp
      next
        case Return
        with Cons "1.prems" show ?thesis by simp
      qed
    qed
  next
    case Resolved
    with "1.prems" "1.IH" show ?thesis by simp
  next
    case (Rejected e)
    with "1.prems" show ?thesis by simp
  qed
next
  case (2 env st)
  then show ?case by simp
next
  case (3 env st ev es)
  show ?case
  proof (cases ev)
    case (Snapshot s)
    with "3.prems" "3.IH" show ?thesis by simp
  next
    case (NavSettled r)
    with "3.prems" have r: "r = None" by (cases r) auto
    with NavSettled "3.prems" "3.IH" show ?thesis
      by (simp add: settle_goto_def)
  next
    case Settle
    from "3.prems"(6) obtain shot where shot: "page_screenshot env (shots st) = Inr shot"
      by blast
    show ?thesis
    proof (cases "finalized st")
      case True
      have nr: "gotoPromise st \<noteq> Rejected e" for e using "3.prems"(2) by simp
      show ?thesis
      proof (cases "gotoPromise st")
        case Pending
        with Settle shot True "3.prems" "3.IH"
        show ?thesis by simp
      next
        case Resolved
        with Settle shot True "3.prems" "3.IH"
        show ?thesis by simp
      next
        case (Rejected e)
        with nr [of e] show ?thesis by simp
      qed
    next
      case False
      with Settle shot "3.prems" "3.IH"
      show ?thesis by simp
    qed
  next
    case Next
    with "3.prems" "3.IH" show ?thesis by simp
  next
    case Return
    with "3.prems" show ?thesis by simp
  qed
next
  case (4 env shot st)
  then show ?case by simp
next
  case (5 env shot st ev es)
  show ?case
  proof (cases ev)
    case (Snapshot s)
    with "5.prems" "5.IH" show ?thesis by simp
  next
    case (NavSettled r)
    with "5.prems" "5.IH" show ?thesis by simp
  next
    case Settle
    with "5.prems" show ?thesis by (simp add: final_yield_last)
  next
    case Next
    with "5.prems" "5.IH" show ?thesis by simp
  next
    case Return
    with "5.prems" show ?thesis by simp
  qed
next
  case (6 env st)
  then show ?case by simp
next
  case (7 env st ev es)
  show ?case
  proof (cases ev)
    case (Snapshot s)
    with "7.prems" "7.IH" show ?thesis by simp
  next
    case (NavSettled r)
    with "7.prems" have r: "r = None" by (cases r) auto
    with NavSettled "7.prems" "7.IH" show ?thesis
      by (simp add: settle_goto_def)
  next
    case Settle
    with "7.prems" "7.IH" show ?thesis by simp
  next
    case Next
    with "7.prems" "7.IH" show ?thesis by simp
  next
    case Return
    with "7.prems" show ?thesis by simp
  qed
next
  case (8 env st)
  then show ?case by simp
next
  case (9 env st ev es)
  then show ?case by simp
qed


lemma settle_goto_settled [simp]: "gotoPromise st \<noteq> Pending \<Longrightarrow> settle_goto st r = st"
  by (simp add: settle_goto_def)

lemma rejected_yields_nothing:
  "gotoPromise st = Rejected e \<Longrightarrow> finalized st \<Longrightarrow> ph = Racing \<or> ph = Shooting \<or> ph = AtYield \<Longrightarrow>
     fst (scrap_loop env ph st es) = []"
  by (induction env ph st es rule: scrap_loop.induct)
     (auto split: page_event.splits sum.splits)

lemma settle_goto_failure:
  "gotoPromise st = Pending \<Longrightarrow>
     gotoPromise (settle_goto st (Some err)) = Rejected err \<and> finalized (settle_goto st (Some err))"
  by (simp add: settle_goto_def)

lemma nothing_after_failure:
  "gotoPromise st = Pending \<Longrightarrow> \<not> finalized st \<Longrightarrow> ph = Racing \<or> ph = Shooting \<or> ph = AtYield \<Longrightarrow>
   \<forall>r. NavSettled r \<notin> set es1 \<Longrightarrow>
   fst (scrap_loop env ph st (es1 @ NavSettled (Some err) # es2)) = fst (scrap_loop env ph st es1)"
proof (induction env ph st es1 rule: scrap_loop.induct)
  case (1 env st es)
  show ?case
  proof (cases es)
    case Nil
    with "1.prems" settle_goto_failure [of st err] show ?thesis
      by (simp add: rejected_yields_nothing)
  next
    case (Cons ev es')
    with "1.prems" "1.IH" show ?thesis
      by (cases ev) auto
  qed
next
  case (2 env st)
  with settle_goto_failure [of st err] show ?case
    by (simp add: rejected_yields_nothing)
next
  case (3 env st ev es)
  then show ?case
    by (cases ev) (auto split: sum.splits)
next
  case (4 env shot st)
  then show ?case by simp
next
  case (5 env shot st ev es)
  then show ?case by simp
next
  case (6 env st)
  with settle_goto_failure [of st err] show ?case
    by (simp add: rejected_yields_nothing)
next
  case (7 env st ev es)
  then show ?case
    by (cases ev) auto
next
  case (8 env st)
  then show ?case by simp
next
  case (9 env st ev es)
  then show ?case by simp
qed


lemma fst_scrap:
  "acquire env = None \<Longrightarrow>
   fst (scrap env es) = fst (scrap_loop env Racing
      \<lparr>snapshot_var = Undefined, finalized = False, gotoPromise = Pending, shots = 0,
        unhandled = None\<rparr> es)"
  by (simp add: scrap_def Let_def split: option.splits)

lemma snd_scrap:
  "acquire env = None \<Longrightarrow> destroy env = None \<Longrightarrow>
   snd (scrap env es) = snd (scrap_loop env Racing
      \<lparr>snapshot_var = Undefined, finalized = False, gotoPromise = Pending, shots = 0,
        unhandled = None\<rparr> es)"
  by (simp add: scrap_def Let_def)

text \<open>
  Two pages: on the first the final parse finds an article, on the second it finds none.
\<close>

definition env1 :: "nat scrap_env" where
  "env1 = \<lparr> acquire = None, page_screenshot = (\<lambda>k. Inr [k]), page_evaluate = Inr (Obj 7), destroy = None \<rparr>"

definition env_null :: "nat scrap_env" where
  "env_null = \<lparr> acquire = None, page_screenshot = (\<lambda>k. Inr [k]), page_evaluate = Inr Null, destroy = None \<rparr>"

text \<open>
  C3, as stated, fails: the navigation resolves, the screenshot is taken, the in-page
  parse returns \<^verbatim>\<open>null\<close> (Readability finds no article), and the only, hence last,
  PageResult carries a \<^verbatim>\<open>null\<close> snapshot.
\<close>

theorem scrap_last_snapshot_null:
  "scrap env_null [NavSettled None, Settle, Settle, Next]
     = ([\<lparr>snapshot = Null, screenshot = [0]\<rparr>], Completed)"
  by (simp add: scrap_def env_null_def yield_def settle_goto_def)

text \<open>
  C3, amended. When the navigation does not fail, no screenshot and not the final parse
  rejects, the consumer does not close the generator, and the generator completes, then
  at least one PageResult is yielded and the snapshot of the last one is the value of the
  Readability parse evaluated after the navigation promise has settled (which is
  \<^verbatim>\<open>null\<close> when the parse gives \<^verbatim>\<open>null\<close>).
\<close>

theorem scrap_finality:
  assumes "acquire env = None" and "destroy env = None"
    and "\<forall>k. \<exists>shot. page_screenshot env k = Inr shot"
    and "page_evaluate env = Inr v"
    and "\<forall>e. NavSettled (Some e) \<notin> set es"
    and "Return \<notin> set es"
    and "snd (scrap env es) = Completed"
  shows "fst (scrap env es) \<noteq> [] \<and> snapshot (last (fst (scrap env es))) = v"
proof -
  let ?st = "\<lparr>snapshot_var = Undefined, finalized = False, gotoPromise = Pending, shots = 0,
        unhandled = None\<rparr> :: 'a scrap_state"
  have "snd (scrap_loop env Racing ?st es) = Completed"
    using assms(1,2,7) by (simp add: snd_scrap)
  then have "fst (scrap_loop env Racing ?st es) \<noteq> [] \<and>
      snapshot (last (fst (scrap_loop env Racing ?st es))) = v"
    using assms(3-6) by (intro scrap_loop_final) simp_all
  then show ?thesis
    using assms(1) by (simp add: fst_scrap)
qed

theorem scrap_finality_witness:
  "fst (scrap env1 [Snapshot (Obj 3), Settle, Next, NavSettled None, Settle, Settle, Next])
     = [\<lparr>snapshot = Obj 3, screenshot = [0]\<rparr>, \<lparr>snapshot = Obj 7, screenshot = [1]\<rparr>] \<and>
   snapshot (last (fst (scrap env1 [Snapshot (Obj 3), Settle, Next, NavSettled None, Settle, Settle, Next])))
     = Obj 7"
proof -
  let ?es = "[Snapshot (Obj 3), Settle, Next, NavSettled None, Settle, Settle, Next] :: nat page_event list"
  have run: "scrap env1 ?es
      = ([\<lparr>snapshot = Obj 3, screenshot = [0]\<rparr>, \<lparr>snapshot = Obj 7, screenshot = [1]\<rparr>], Completed)"
    by (simp add: scrap_def env1_def yield_def settle_goto_def hdl_def)
  have "acquire env1 = None" "destroy env1 = None"
    "\<forall>k. \<exists>shot. page_screenshot env1 k = Inr shot" "page_evaluate env1 = Inr (Obj 7)"
    by (simp_all add: env1_def)
  moreover have "\<forall>e. NavSettled (Some e) \<notin> set ?es" "Return \<notin> set ?es"
    by simp_all
  moreover have "snd (scrap env1 ?es) = Completed"
    by (simp add: run)
  ultimately have "snapshot (last (fst (scrap env1 ?es))) = Obj 7"
    using scrap_finality [of env1 "Obj 7" ?es] by blast
  with run show ?thesis by simp
qed

text \<open>
  C4, as stated, fails: when the navigation promise rejects (here with the timeout) while
  the generator waits in the race, the \<^verbatim>\<open>catch\<close> block discards the error and the
  generator completes normally, having yielded nothing.
\<close>

theorem scrap_timeout_swallowed:
  "scrap env1 [NavSettled (Some ''TimeoutError'')] = ([], Completed)"
  by (simp add: scrap_def env1_def settle_goto_def)

lemma rejected_completes:
  "gotoPromise st = Rejected e \<Longrightarrow> finalized st \<Longrightarrow>
     ph = Racing \<or> (ph = Shooting \<and> Settle \<in> set es) \<or> (ph = AtYield \<and> Next \<in> set es) \<Longrightarrow>
     snd (scrap_loop env ph st es) = Completed"
  by (induction env ph st es rule: scrap_loop.induct)
     (auto split: page_event.splits sum.splits)

lemma completes_after_failure:
  "gotoPromise st = Pending \<Longrightarrow> \<not> finalized st \<Longrightarrow> ph = Racing \<or> ph = Shooting \<or> ph = AtYield \<Longrightarrow>
   \<forall>r. NavSettled r \<notin> set es1 \<Longrightarrow> Settle \<in> set es2 \<Longrightarrow> Next \<in> set es2 \<Longrightarrow>
   snd (scrap_loop env ph st (es1 @ NavSettled (Some err) # es2)) = Completed"
proof (induction env ph st es1 rule: scrap_loop.induct)
  case (1 env st es)
  show ?case
  proof (cases es)
    case Nil
    with "1.prems" settle_goto_failure [of st err] show ?thesis
      by (simp add: rejected_completes)
  next
    case (Cons ev es')
    with "1.prems" "1.IH" show ?thesis
      by (cases ev) auto
  qed
next
  case (2 env st)
  with settle_goto_failure [of st err] show ?case
    by (simp add: rejected_completes)
next
  case (3 env st ev es)
  then show ?case
    by (cases ev) (auto split: sum.splits)
next
  case (4 env shot st)
  then show ?case by simp
next
  case (5 env shot st ev es)
  then show ?case by simp
next
  case (6 env st)
  with settle_goto_failure [of st err] show ?case
    by (simp add: rejected_completes)
next
  case (7 env st ev es)
  then show ?case
    by (cases ev) auto
next
  case (8 env st)
  then show ?case by simp
next
  case (9 env st ev es)
  then show ?case by simp
qed

lemma scrap_throws_only_destroy:
  "acquire env = None \<Longrightarrow> snd (scrap env es) = Threw e \<Longrightarrow> destroy env = Some e"
  unfolding scrap_def Let_def
  by (auto simp del: scrap_loop.simps simp: scrap_loop_never_throws split: option.splits if_splits)

lemma snd_scrap_completed:
  "acquire env = None \<Longrightarrow>
   snd (scrap_loop env Racing
      \<lparr>snapshot_var = Undefined, finalized = False, gotoPromise = Pending, shots = 0,
        unhandled = None\<rparr> es) = Completed \<Longrightarrow>
   snd (scrap env es) = (case destroy env of None \<Rightarrow> Completed | Some e \<Rightarrow> Threw e)"
  unfolding scrap_def Let_def
  by (simp del: scrap_loop.simps split: option.splits)

text \<open>
  The rejection of the navigation is what the process is told: the promise returned by
  \<^verbatim>\<open>gotoPromise.finally(...)\<close> rejects with it, unhandled.
\<close>

lemma on_navigation_settled: "gotoPromise st \<noteq> Pending \<Longrightarrow> on_navigation ev st = st"
  by (cases ev) (simp_all add: on_navigation_def)

lemma fold_on_navigation_settled:
  "gotoPromise st \<noteq> Pending \<Longrightarrow> fold on_navigation es st = st"
  by (induction es arbitrary: st) (simp_all add: on_navigation_settled)

lemma fold_on_navigation_failure:
  "gotoPromise st = Pending \<Longrightarrow> \<forall>r. NavSettled r \<notin> set es1 \<Longrightarrow>
   unhandled (fold on_navigation (es1 @ NavSettled (Some err) # es2) st) = Some err"
proof (induction es1 arbitrary: st)
  case Nil
  let ?st = "on_navigation (NavSettled (Some err)) st"
  from Nil have "gotoPromise ?st \<noteq> Pending" and "unhandled ?st = Some err"
    by (simp_all add: on_navigation_def settle_goto_def)
  then have "unhandled (fold on_navigation es2 ?st) = Some err"
    by (simp add: fold_on_navigation_settled)
  then show ?case by simp
next
  case (Cons ev es1)
  from Cons.prems have "gotoPromise (on_navigation ev st) = Pending"
    by (cases ev) (auto simp: on_navigation_def)
  moreover from Cons.prems have "\<forall>r. NavSettled r \<notin> set es1"
    by simp
  ultimately have "unhandled (fold on_navigation (es1 @ NavSettled (Some err) # es2) (on_navigation ev st)) = Some err"
    by (rule Cons.IH)
  then show ?case by simp
qed

lemma navigation_failure_unhandled:
  "acquire env = None \<Longrightarrow> \<forall>r. NavSettled r \<notin> set es1 \<Longrightarrow>
   unhandled_rejection env (es1 @ NavSettled (Some err) # es2) = Some err"
  unfolding unhandled_rejection_def
  by (simp only: option.case) (rule fold_on_navigation_failure, simp_all)

text \<open>
  While the generator waits (here for the screenshot) it stays where it is: nothing is
  raised at the moment the navigation fails.
\<close>

lemma scrap_waits_for_screenshot:
  "scrap env1 [Snapshot (Obj 3), NavSettled (Some ''TimeoutError'')] = ([], Suspended)"
  by (simp add: scrap_def env1_def hdl_def settle_goto_def)

text \<open>
  C4, amended. When the navigation promise rejects, the rejection is swallowed inside the
  generator, by its \<^verbatim>\<open>catch\<close> block: the generator yields nothing beyond what it had
  yielded before the rejection; the only error it can raise to its consumer is that of a
  rejecting \<^verbatim>\<open>pagePool.destroy\<close>, never that of the navigation as such; and once the
  screenshot it may be waiting for has settled and the consumer has asked for the next
  item, it has left the loop, run \<^verbatim>\<open>pagePool.destroy\<close> and completed (normally when
  \<^verbatim>\<open>destroy\<close> resolves). The navigation is the one started after a successful
  \<^verbatim>\<open>acquire\<close>; \<open>es1\<close> is what happens before it rejects, \<open>es2\<close> what happens
  afterwards.
\<close>

theorem scrap_swallows_navigation_failure:
  assumes "acquire env = None"
    and "\<forall>r. NavSettled r \<notin> set es1"
  shows "fst (scrap env (es1 @ NavSettled (Some err) # es2)) = fst (scrap env es1) \<and>
         (\<forall>e. snd (scrap env (es1 @ NavSettled (Some err) # es2)) = Threw e \<longrightarrow> destroy env = Some e) \<and>
         (Settle \<in> set es2 \<and> Next \<in> set es2 \<longrightarrow>
            snd (scrap env (es1 @ NavSettled (Some err) # es2))
              = (case destroy env of None \<Rightarrow> Completed | Some e \<Rightarrow> Threw e))"
proof (intro conjI allI impI)
  let ?st = "\<lparr>snapshot_var = Undefined, finalized = False, gotoPromise = Pending, shots = 0,
              unhandled = None\<rparr> :: 'a scrap_state"
  have "fst (scrap_loop env Racing ?st (es1 @ NavSettled (Some err) # es2))
          = fst (scrap_loop env Racing ?st es1)"
    by (rule nothing_after_failure) (simp_all add: assms(2))
  then show "fst (scrap env (es1 @ NavSettled (Some err) # es2)) = fst (scrap env es1)"
    by (simp only: fst_scrap [OF assms(1)])
next
  fix e
  assume "snd (scrap env (es1 @ NavSettled (Some err) # es2)) = Threw e"
  with assms(1) show "destroy env = Some e"
    by (rule scrap_throws_only_destroy)
next
  let ?st = "\<lparr>snapshot_var = Undefined, finalized = False, gotoPromise = Pending, shots = 0,
              unhandled = None\<rparr> :: 'a scrap_state"
  assume "Settle \<in> set es2 \<and> Next \<in> set es2"
  then have "snd (scrap_loop env Racing ?st (es1 @ NavSettled (Some err) # es2)) = Completed"
    by (intro completes_after_failure) (simp_all add: assms(2))
  with assms(1) show "snd (scrap env (es1 @ NavSettled (Some err) # es2))
      = (case destroy env of None \<Rightarrow> Completed | Some e \<Rightarrow> Threw e)"
    by (rule snd_scrap_completed)
qed

text \<open>
  A page whose destruction rejects, and a run in which the navigation times out while the
  second screenshot is being taken.
\<close>

definition env_destroy_fails :: "nat scrap_env" where
  "env_destroy_fails = \<lparr> acquire = None, page_screenshot = (\<lambda>k. Inr [k]), page_evaluate = Inr (Obj 7),
     destroy = Some ''destroy failed'' \<rparr>"

theorem scrap_swallows_navigation_failure_witness:
  "scrap env1 [Snapshot (Obj 3), Settle, Next, Snapshot (Obj 4), NavSettled (Some ''TimeoutError''), Settle, Next]
     = ([\<lparr>snapshot = Obj 3, screenshot = [0]\<rparr>], Completed) \<and>
   scrap env_destroy_fails
       [Snapshot (Obj 3), Settle, Next, Snapshot (Obj 4), NavSettled (Some ''TimeoutError''), Settle, Next]
     = ([\<lparr>snapshot = Obj 3, screenshot = [0]\<rparr>], Threw ''destroy failed'')"
proof -
  let ?es1 = "[Snapshot (Obj 3), Settle, Next, Snapshot (Obj 4)] :: nat page_event list"
  let ?es2 = "[Settle, Next] :: nat page_event list"
  let ?es = "?es1 @ NavSettled (Some ''TimeoutError'') # ?es2"
  have no_nav: "\<forall>r. NavSettled r \<notin> set ?es1"
    by simp
  have later: "Settle \<in> set ?es2 \<and> Next \<in> set ?es2"
    by simp
  have before1: "fst (scrap env1 ?es1) = [\<lparr>snapshot = Obj 3, screenshot = [0]\<rparr>]"
    by (simp add: scrap_def env1_def yield_def hdl_def)
  have before2: "fst (scrap env_destroy_fails ?es1) = [\<lparr>snapshot = Obj 3, screenshot = [0]\<rparr>]"
    by (simp add: scrap_def env_destroy_fails_def yield_def hdl_def)
  have a1: "acquire env1 = None" and d1: "destroy env1 = None"
    by (simp_all add: env1_def)
  have a2: "acquire env_destroy_fails = None" and d2: "destroy env_destroy_fails = Some ''destroy failed''"
    by (simp_all add: env_destroy_fails_def)
  note t1 = scrap_swallows_navigation_failure [OF a1 no_nav, of "''TimeoutError''" ?es2]
  note t2 = scrap_swallows_navigation_failure [OF a2 no_nav, of "''TimeoutError''" ?es2]
  have "fst (scrap env1 ?es) = [\<lparr>snapshot = Obj 3, screenshot = [0]\<rparr>]"
    using t1 [THEN conjunct1] before1 by (simp only:)
  moreover have "snd (scrap env1 ?es) = Completed"
    using t1 [THEN conjunct2, THEN conjunct2, rule_format, OF later] by (simp only: d1 option.case)
  ultimately have r1: "scrap env1 ?es = ([\<lparr>snapshot = Obj 3, screenshot = [0]\<rparr>], Completed)"
    by (simp only: prod_eq_iff fst_conv snd_conv simp_thms)
  have "fst (scrap env_destroy_fails ?es) = [\<lparr>snapshot = Obj 3, screenshot = [0]\<rparr>]"
    using t2 [THEN conjunct1] before2 by (simp only:)
  moreover have "snd (scrap env_destroy_fails ?es) = Threw ''destroy failed''"
    using t2 [THEN conjunct2, THEN conjunct2, rule_format, OF later] by (simp only: d2 option.case)
  ultimately have r2: "scrap env_destroy_fails ?es
      = ([\<lparr>snapshot = Obj 3, screenshot = [0]\<rparr>], Threw ''destroy failed'')"
    by (simp only: prod_eq_iff fst_conv snd_conv simp_thms)
  from r1 r2 show ?thesis
    by (simp only: append.simps simp_thms)
qed

section \<open>Interrogator loop (InterrogatorHost.chatWithReader)\<close>

subsection \<open>Values, messages and events\<close>

datatype json = JNull | JBool bool | JNum int | JStr string | JArr "json list" | JObj "(string \<times> json) list"

text \<open>
  A property read \<^verbatim>\<open>v?.key\<close> for the keys the loop reads (\<^verbatim>\<open>name\<close>,
  \<^verbatim>\<open>arguments\<close>, \<^verbatim>\<open>id\<close>, \<^verbatim>\<open>intention\<close>, \<^verbatim>\<open>tools\<close>): \<open>None\<close> is
  \<^verbatim>\<open>undefined\<close>. Only an object has such a property.
\<close>

fun get_prop :: "json \<Rightarrow> string \<Rightarrow> json option" where
  "get_prop (JObj kvs) k = map_of kvs k"
| "get_prop _ k = None"

fun truthy :: "json option \<Rightarrow> bool" where
  "truthy None = False"
| "truthy (Some JNull) = False"
| "truthy (Some (JBool b)) = b"
| "truthy (Some (JNum n)) = (n \<noteq> 0)"
| "truthy (Some (JStr s)) = (s \<noteq> [])"
| "truthy (Some _) = True"

text \<open>\<^verbatim>\<open>!v || typeof v !== 'object'\<close> is false exactly for objects and arrays.\<close>

fun is_object :: "json \<Rightarrow> bool" where
  "is_object (JObj kvs) = True"
| "is_object (JArr vs) = True"
| "is_object _ = False"

text \<open>
  What a collaborator throws: an \<^verbatim>\<open>Error\<close> object, with its \<^verbatim>\<open>name\<close> and its
  \<^verbatim>\<open>message\<close>, or any other value.
\<close>

datatype thrown = ErrorObject string string | Value json

text \<open>
  What a call of a tool, \<^verbatim>\<open>llmToolsRegistry.exec(name, args)\<close>, does: it throws before
  it returns; or it returns a promise that rejects; or it returns a promise that resolves
  (or a value that is no promise, which \<^verbatim>\<open>await\<close> treats alike); or it returns a
  promise that never settles.
\<close>

datatype tool_result = Throws thrown | Rejects thrown | Resolves json | Unsettled


record message =
  msg_role :: string
  msg_content :: json
  msg_name :: "json option"
  msg_tool_call_id :: "json option"

datatype sse_event =
    EvChunk string
  | EvN1 string
  | EvN2 string
  | EvSnapshot json
  | EvStructured json
  | EvCall json json "json option"
  | EvText string
  | EvReturn json json "json option"
  | EvInjectHistory message
  | EvHistory message
  | EvError string

subsection \<open>Collaborators\<close>

text \<open>
  What the stream returned by \<^verbatim>\<open>mdl.exec\<close> does: it emits \<^verbatim>\<open>data\<close> (a string chunk
  is \<open>JStr\<close>) and native \<^verbatim>\<open>call\<close> events, then ends and closes, or emits
  \<^verbatim>\<open>error\<close>; it may carry a \<^verbatim>\<open>history\<close> property.
\<close>

datatype stream_event = Data json | NativeCall json "json option"

datatype stream_end = End | StreamError string string

record response =
  events :: "stream_event list"
  ending :: stream_end
  history_prop :: "message option"

record request =
  req_system :: "string option"
  req_functions :: "json list option"
  req_messages :: "message list"

text \<open>Events of the incremental JSON parser and accumulator.\<close>

datatype parser_event = PN1 string | PN2 string | PData json | PFinal json

text \<open>
  When the tools called in a turn settle. A tool runs while the loop goes on reading the
  stream, so the promise of a call (named by its position in \<^verbatim>\<open>waitList\<close>) may settle
  after any later event of the stream (\<open>during_stream k\<close>: after the \<open>k\<close>-th event),
  between the end of the stream and the moment the loop resumes after
  \<^verbatim>\<open>once(..., 'close')\<close> (\<open>before_close\<close>), or while the loop awaits
  \<^verbatim>\<open>Promise.all(waitList)\<close> (\<open>after_history\<close>: the promises that settle first there,
  in that order; the others follow in the order of the calls). A position that names no
  promise that can settle at that moment (none at all, one that has settled, one whose
  tool never settles) is passed over.
\<close>

record timing =
  during_stream :: "nat \<Rightarrow> nat list"
  before_close :: "nat list"
  after_history :: "nat list"

text \<open>
  The environment of one request: the model's capabilities, the prompt mixin of the tool
  registry (\<^verbatim>\<open>functionsMixin\<close>), the options of the request, the trimmed messages,
  and the collaborators. \<open>mdl_exec\<close>: \<open>Inl\<close> when the call rejects, \<open>Inr None\<close>
  when the result is not a readable stream. \<open>parser_write chunks\<close> are the events of the
  JSON parser on writing the last of \<open>chunks\<close>, \<open>parser_end chunks\<close> those on ending it.
  \<open>parseJSON\<close>: \<open>Inl\<close> holds what is thrown. \<open>to_String\<close> is the conversion
  of a value that is not a string to a string. \<open>tool_timing\<close>: when the tools settle in
  the turn of a request.
\<close>

record chat_env =
  streamingSupported :: bool
  functionCallingSupported :: bool
  systemSupported :: bool
  mixin_system :: "string option"
  mixin_functions :: "json list option"
  options_system :: "string option"
  options_functions :: "json list option"
  trimmedMessages :: "message list"
  mdl_exec :: "request \<Rightarrow> string + response option"
  parser_write :: "string list \<Rightarrow> parser_event list"
  parser_end :: "string list \<Rightarrow> parser_event list"
  parseJSON :: "string \<Rightarrow> thrown + json"
  tools_exec :: "json \<Rightarrow> json \<Rightarrow> tool_result"
  stringify :: "json \<Rightarrow> string"
  to_String :: "json \<Rightarrow> string"
  tool_timing :: "request \<Rightarrow> timing"

subsection \<open>One turn\<close>

text \<open>
  A promise in \<^verbatim>\<open>waitList\<close>: the name and the id of the call, and the parsed arguments
  or what \<^verbatim>\<open>parseJSON\<close> threw. \<open>ts_settled\<close> holds the positions of the promises
  that have settled.
\<close>

datatype pending_call = PendingCall json "json option" "thrown + json"

record turn_state =
  ts_trace :: "sse_event list"
  ts_tailMessages :: "message list"
  ts_waitList :: "pending_call list"
  ts_settled :: "nat list"
  ts_resp :: json
  ts_chunks :: "string list"
  ts_n1 :: bool
  ts_n2 :: bool
  ts_final :: bool
  ts_crashed :: bool

text \<open>
  A template literal \<^verbatim>\<open>`${v}`\<close>, and \<^verbatim>\<open>`${err}`\<close> for what was thrown: an
  \<^verbatim>\<open>Error\<close> object is rendered by \<^verbatim>\<open>Error.prototype.toString\<close>, as its name, a
  colon and its message (the name alone, or the message alone, when the other is empty).
\<close>

definition js_string :: "chat_env \<Rightarrow> json \<Rightarrow> string" where
  "js_string env v = (case v of JStr s \<Rightarrow> s | _ \<Rightarrow> to_String env v)"

definition thrown_string :: "chat_env \<Rightarrow> thrown \<Rightarrow> string" where
  "thrown_string env err =
     (case err of
        ErrorObject name message \<Rightarrow>
          (if name = [] then message else if message = [] then name else name @ '': '' @ message)
      | Value v \<Rightarrow> js_string env v)"

definition sse_write :: "sse_event \<Rightarrow> turn_state \<Rightarrow> turn_state" where
  "sse_write ev ts = ts\<lparr>ts_trace := ts_trace ts @ [ev]\<rparr>"

text \<open>
  \<^verbatim>\<open>typeof params.arguments === 'string' ? parseJSON(params.arguments, ...)
  : (params.arguments || {})\<close>
\<close>

definition parsed_arguments :: "chat_env \<Rightarrow> json option \<Rightarrow> thrown + json" where
  "parsed_arguments env a =
     (case a of
        Some (JStr s) \<Rightarrow> parseJSON env s
      | Some v \<Rightarrow> Inr (if truthy (Some v) then v else JObj [])
      | None \<Rightarrow> Inr (JObj []))"

text \<open>
  The end of the promise of a call, from the call of the tool on: a result is written out
  as \<^verbatim>\<open>return\<close>; what the tool throws or rejects with (or what \<^verbatim>\<open>parseJSON\<close> threw
  before) is caught and becomes the string \<^verbatim>\<open>`${err}`\<close>; either way the history item
  is pushed to \<^verbatim>\<open>tailMessages\<close> and written out as \<^verbatim>\<open>injectHistory\<close>.
\<close>

definition historyItem :: "json \<Rightarrow> json option \<Rightarrow> json \<Rightarrow> message" where
  "historyItem name callId result =
     (if truthy callId
      then \<lparr>msg_role = ''tool'', msg_content = result, msg_name = None, msg_tool_call_id = callId\<rparr>
      else \<lparr>msg_role = ''function'', msg_content = result, msg_name = Some name, msg_tool_call_id = None\<rparr>)"

definition push_history :: "json \<Rightarrow> json option \<Rightarrow> json \<Rightarrow> turn_state \<Rightarrow> turn_state" where
  "push_history name callId result ts =
     sse_write (EvInjectHistory (historyItem name callId result))
       (ts\<lparr>ts_tailMessages := ts_tailMessages ts @ [historyItem name callId result]\<rparr>)"

fun finish_call :: "chat_env \<Rightarrow> pending_call \<Rightarrow> turn_state \<Rightarrow> turn_state" where
  "finish_call env (PendingCall name callId (Inl err)) ts =
     push_history name callId (JStr (thrown_string env err)) ts"
| "finish_call env (PendingCall name callId (Inr parsedArgs)) ts =
     (case tools_exec env name parsedArgs of
        Throws err \<Rightarrow> push_history name callId (JStr (thrown_string env err)) ts
      | Rejects err \<Rightarrow> push_history name callId (JStr (thrown_string env err)) ts
      | Resolves result \<Rightarrow>
          push_history name callId result (sse_write (EvReturn name result callId) ts)
      | Unsettled \<Rightarrow> ts)"

text \<open>
  Whether the promise of a call ever settles: it does unless it waits for a tool that
  never settles.
\<close>

fun settles :: "chat_env \<Rightarrow> pending_call \<Rightarrow> bool" where
  "settles env (PendingCall name callId (Inl err)) = True"
| "settles env (PendingCall name callId (Inr parsedArgs)) = (tools_exec env name parsedArgs \<noteq> Unsettled)"

text \<open>
  The promise at position \<open>i\<close> of \<^verbatim>\<open>waitList\<close> settles, unless it has settled or
  never does.
\<close>

definition settle :: "chat_env \<Rightarrow> nat \<Rightarrow> turn_state \<Rightarrow> turn_state" where
  "settle env i ts =
     (if i < length (ts_waitList ts) \<and> i \<notin> set (ts_settled ts) \<and> settles env (ts_waitList ts ! i)
      then (finish_call env (ts_waitList ts ! i) ts)\<lparr>ts_settled := i # ts_settled ts\<rparr>
      else ts)"

text \<open>
  The \<^verbatim>\<open>call\<close> listener. A call without a name is dropped. Otherwise a promise joins
  \<^verbatim>\<open>waitList\<close>, and its executor runs at once up to its first \<^verbatim>\<open>await\<close>. When
  \<^verbatim>\<open>parseJSON\<close> throws, no \<^verbatim>\<open>await\<close> is reached: the throw is caught, the
  history item pushed and the promise resolved on the spot (no \<^verbatim>\<open>call\<close> event is
  written). Otherwise the \<^verbatim>\<open>call\<close> event and the line of text are written and the
  tool is called; when that call itself throws, the promise ends on the spot likewise;
  else the promise waits for the tool.
\<close>

definition handle_call :: "chat_env \<Rightarrow> json \<Rightarrow> json option \<Rightarrow> turn_state \<Rightarrow> turn_state" where
  "handle_call env params callId ts =
     (case get_prop params ''name'' of
        None \<Rightarrow> ts
      | Some name \<Rightarrow>
         (if \<not> truthy (Some name) then ts
          else (case parsed_arguments env (get_prop params ''arguments'') of
                  Inl e \<Rightarrow>
                    settle env (length (ts_waitList ts))
                      (ts\<lparr>ts_waitList := ts_waitList ts @ [PendingCall name callId (Inl e)]\<rparr>)
                | Inr parsedArgs \<Rightarrow>
                    (let started =
                       (sse_write (EvText (''Calling tool '' @ js_string env name @ '' with arguments: ''
                                            @ stringify env parsedArgs))
                         (sse_write (EvCall name parsedArgs callId) ts))
                       \<lparr>ts_waitList := ts_waitList ts @ [PendingCall name callId (Inr parsedArgs)]\<rparr>
                     in (case tools_exec env name parsedArgs of
                           Throws err \<Rightarrow> settle env (length (ts_waitList ts)) started
                         | _ \<Rightarrow> started)))))"

text \<open>
  \<^verbatim>\<open>for (const toolCall of toolCalls) retStream.emit('call', toolCall, toolCall.id)\<close>:
  reading \<^verbatim>\<open>id\<close> of \<^verbatim>\<open>null\<close> throws a TypeError inside the listener, which
  is taken to abort the request.
\<close>

fun emit_calls :: "chat_env \<Rightarrow> json list \<Rightarrow> turn_state \<Rightarrow> turn_state" where
  "emit_calls env [] ts = ts"
| "emit_calls env (toolCall # toolCalls) ts =
     (if toolCall = JNull then ts\<lparr>ts_crashed := True\<rparr>
      else emit_calls env toolCalls (handle_call env toolCall (get_prop toolCall ''id'') ts))"

text \<open>The \<^verbatim>\<open>once('final', ...)\<close> listener of the accumulator.\<close>

definition on_final :: "chat_env \<Rightarrow> bool \<Rightarrow> json \<Rightarrow> turn_state \<Rightarrow> turn_state" where
  "on_final env softwareFunctionCallingInAction final ts =
     (if ts_final ts then ts
      else if \<not> is_object final then ts\<lparr>ts_final := True\<rparr>
      else if get_prop final ''intention'' \<noteq> Some (JStr ''USE_TOOLS'')
        then sse_write (EvStructured final) (ts\<lparr>ts_final := True\<rparr>)
      else (case get_prop final ''tools'' of
              Some (JArr toolCalls) \<Rightarrow>
                (if softwareFunctionCallingInAction then
                   emit_calls env toolCalls
                     ((sse_write (EvStructured final) (ts\<lparr>ts_final := True\<rparr>))
                        \<lparr>ts_tailMessages := ts_tailMessages ts @
                           [\<lparr>msg_role = ''assistant'', msg_content = JStr (stringify env final),
                             msg_name = None, msg_tool_call_id = None\<rparr>]\<rparr>)
                 else sse_write (EvStructured final) (ts\<lparr>ts_final := True\<rparr>))
            | _ \<Rightarrow> sse_write (EvStructured final) (ts\<lparr>ts_final := True\<rparr>)))"

definition on_parser_event :: "chat_env \<Rightarrow> bool \<Rightarrow> parser_event \<Rightarrow> turn_state \<Rightarrow> turn_state" where
  "on_parser_event env sfc ev ts =
     (if ts_crashed ts then ts
      else (case ev of
              PN1 n1 \<Rightarrow> (if ts_n1 ts then ts else sse_write (EvN1 n1) (ts\<lparr>ts_n1 := True\<rparr>))
            | PN2 n2 \<Rightarrow> (if ts_n2 ts then ts else sse_write (EvN2 n2) (ts\<lparr>ts_n2 := True\<rparr>))
            | PData snap \<Rightarrow> (if is_object snap then sse_write (EvSnapshot snap) ts else ts)
            | PFinal final \<Rightarrow> on_final env sfc final ts))"

text \<open>
  The \<^verbatim>\<open>data\<close> listener (a chunk that is not a string replaces \<^verbatim>\<open>resp\<close>; a string
  is appended, written to the JSON parser, whose events are taken to fire at once, and
  then written out as \<^verbatim>\<open>chunk\<close>) and the \<^verbatim>\<open>call\<close> listener for native calls.
\<close>

definition on_stream_event :: "chat_env \<Rightarrow> bool \<Rightarrow> stream_event \<Rightarrow> turn_state \<Rightarrow> turn_state" where
  "on_stream_event env sfc ev ts =
     (if ts_crashed ts then ts
      else (case ev of
              Data (JStr chunk) \<Rightarrow>
                sse_write (EvChunk chunk)
                  (fold (on_parser_event env sfc) (parser_write env (ts_chunks ts @ [chunk]))
                     (ts\<lparr>ts_resp := JStr (js_string env (ts_resp ts) @ chunk),
                         ts_chunks := ts_chunks ts @ [chunk]\<rparr>))
            | Data chunk \<Rightarrow> ts\<lparr>ts_resp := chunk\<rparr>
            | NativeCall params callId \<Rightarrow> handle_call env params callId ts))"

text \<open>
  How the function ends: it returns the stream, it throws, or it never returns (it waits
  for a tool that never settles). And how a turn ends: the loop resumes, the function
  throws, or the loop waits for ever.
\<close>

datatype outcome = Returned | Threw string | Waiting

datatype turn_end = Resumes | Fails string | Waits

text \<open>
  The events of the stream, counted from \<open>k\<close>: after each, the tools that settle then.
\<close>

fun stream_events ::
    "chat_env \<Rightarrow> bool \<Rightarrow> timing \<Rightarrow> nat \<Rightarrow> stream_event list \<Rightarrow> turn_state \<Rightarrow> turn_state" where
  "stream_events env sfc tm k [] ts = ts"
| "stream_events env sfc tm k (ev # evs) ts =
     stream_events env sfc tm (Suc k) evs
       (fold (settle env) (during_stream tm k) (on_stream_event env sfc ev ts))"

text \<open>
  The stream part of a turn: the listeners run over the events of the stream, then over
  the events of the parser when the stream ends; then the streams close.
\<close>

definition consume_stream :: "chat_env \<Rightarrow> bool \<Rightarrow> timing \<Rightarrow> response \<Rightarrow> turn_state \<Rightarrow> turn_state" where
  "consume_stream env sfc tm resp ts =
     (let ts1 = stream_events env sfc tm 0 (events resp) ts;
          ts2 = fold (on_parser_event env sfc) (parser_end env (ts_chunks ts1)) ts1
      in fold (settle env) (before_close tm) ts2)"

text \<open>
  The turn from the stream on. On a stream error the \<^verbatim>\<open>error\<close> listener ends the
  output with an \<^verbatim>\<open>error\<close> event and \<^verbatim>\<open>once(retStream, 'close')\<close> rejects, so the
  function throws. Otherwise the loop goes on exactly when a call joined
  \<^verbatim>\<open>waitList\<close>; the history of the turn is written; and
  \<^verbatim>\<open>await Promise.all(waitList)\<close> lets the promises settle that have not settled yet,
  and resumes the loop when all of them have.
  The result: the tail messages, the output so far, \<^verbatim>\<open>keepLooping\<close>, and how the
  turn ends.
\<close>

definition run_turn ::
    "chat_env \<Rightarrow> bool \<Rightarrow> timing \<Rightarrow> message list \<Rightarrow> sse_event list \<Rightarrow> response
       \<Rightarrow> message list \<times> sse_event list \<times> bool \<times> turn_end" where
  "run_turn env sfc tm tailMessages trace resp =
     (let ts = consume_stream env sfc tm resp
                 \<lparr>ts_trace = trace, ts_tailMessages = tailMessages, ts_waitList = [],
                  ts_settled = [], ts_resp = JStr [], ts_chunks = [], ts_n1 = False, ts_n2 = False,
                  ts_final = False, ts_crashed = False\<rparr>
      in if ts_crashed ts then (ts_tailMessages ts, ts_trace ts, False, Fails ''TypeError'')
         else (case ending resp of
                 StreamError ename emessage \<Rightarrow>
                   (ts_tailMessages ts, ts_trace ts @ [EvError (ename @ '': '' @ emessage)], False,
                    Fails (ename @ '': '' @ emessage))
               | End \<Rightarrow>
                  (let keepLooping = (ts_waitList ts \<noteq> []);
                       history = (case history_prop resp of
                                    Some h \<Rightarrow> h
                                  | None \<Rightarrow> \<lparr>msg_role = ''assistant'', msg_content = ts_resp ts,
                                              msg_name = None, msg_tool_call_id = None\<rparr>);
                       ts2 = (if keepLooping then
                                sse_write (EvInjectHistory history)
                                  (if \<not> sfc then ts\<lparr>ts_tailMessages := ts_tailMessages ts @ [history]\<rparr> else ts)
                              else sse_write (EvHistory history) ts);
                       ts3 = fold (settle env) (after_history tm @ [0..<length (ts_waitList ts)]) ts2
                   in (ts_tailMessages ts3, ts_trace ts3, keepLooping,
                       if list_all (settles env) (ts_waitList ts) then Resumes else Waits))))"

subsection \<open>The loop\<close>

text \<open>
  \<^verbatim>\<open>callRoundsLeft\<close> is a JavaScript number. It starts from a number that has passed
  \<^verbatim>\<open>validate\<close>, which need not be an integer, and is decremented by one in each turn;
  it is a rational number here. (On the numbers that pass \<^verbatim>\<open>validate\<close> the
  floating-point decrement is exact down to the first value below 1, and the next value
  is negative in floating-point as in exact arithmetic, so the comparisons with 0 and 1
  come out the same.)
\<close>

definition softwareFC :: "chat_env \<Rightarrow> rat \<Rightarrow> bool" where
  "softwareFC env callRoundsLeft =
     (mixin_functions env \<noteq> None \<and> callRoundsLeft > 1 \<and>
      \<not> functionCallingSupported env \<and> systemSupported env)"

text \<open>
  \<^verbatim>\<open>options.system\<close> after the mixin has been appended once before the loop (for a
  model without native function calling), and \<^verbatim>\<open>thisOptions\<close> of a turn. A missing
  \<^verbatim>\<open>functionsMixin.system\<close> is rendered by the template literal as \<open>undefined\<close>.
\<close>

definition mixin_text :: "chat_env \<Rightarrow> string" where
  "mixin_text env = (case mixin_system env of Some s \<Rightarrow> s | None \<Rightarrow> ''undefined'')"

definition base_system :: "chat_env \<Rightarrow> string option" where
  "base_system env =
     (if \<not> functionCallingSupported env then
        Some ((case options_system env of
                 None \<Rightarrow> []
               | Some s \<Rightarrow> if s = [] then [] else s @ [CHR 0x0A, CHR 0x0A]) @ mixin_text env)
      else options_system env)"

definition thisOptions :: "chat_env \<Rightarrow> rat \<Rightarrow> message list \<Rightarrow> request" where
  "thisOptions env callRoundsLeft tailMessages =
     \<lparr>req_system =
        (if softwareFC env callRoundsLeft then
           Some ((case base_system env of
                    None \<Rightarrow> []
                  | Some s \<Rightarrow> if s = [] then [] else s @ [CHR 0x0A, CHR 0x0A]) @ mixin_text env)
         else base_system env),
      req_functions =
        (if mixin_functions env \<noteq> None \<and> callRoundsLeft > 1 then mixin_functions env
         else options_functions env),
      req_messages = trimmedMessages env @ tailMessages\<rparr>"

text \<open>
  The \<^verbatim>\<open>while\<close> loop. The result: the events written to the output stream, the
  requests made to the model, and how the function ends.
\<close>

function chat_loop ::
    "chat_env \<Rightarrow> rat \<Rightarrow> bool \<Rightarrow> message list \<Rightarrow> sse_event list \<Rightarrow> request list
       \<Rightarrow> sse_event list \<times> request list \<times> outcome" where
  "chat_loop env callRoundsLeft keepLooping tailMessages trace reqs =
     (if keepLooping \<and> callRoundsLeft > 0 then
        (case mdl_exec env (thisOptions env callRoundsLeft tailMessages) of
           Inl e \<Rightarrow> (trace, reqs @ [thisOptions env callRoundsLeft tailMessages], Threw e)
         | Inr None \<Rightarrow>
             (trace, reqs @ [thisOptions env callRoundsLeft tailMessages],
              Threw ''Model did not return a stream'')
         | Inr (Some resp) \<Rightarrow>
             (case run_turn env (softwareFC env callRoundsLeft)
                     (tool_timing env (thisOptions env callRoundsLeft tailMessages))
                     tailMessages trace resp of
                (tailMessages', trace', keepLooping', Fails e) \<Rightarrow>
                  (trace', reqs @ [thisOptions env callRoundsLeft tailMessages], Threw e)
              | (tailMessages', trace', keepLooping', Waits) \<Rightarrow>
                  (trace', reqs @ [thisOptions env callRoundsLeft tailMessages], Waiting)
              | (tailMessages', trace', keepLooping', Resumes) \<Rightarrow>
                  chat_loop env (callRoundsLeft - 1) keepLooping' tailMessages' trace'
                    (reqs @ [thisOptions env callRoundsLeft tailMessages])))
      else (trace, reqs, Returned))"
  by pat_completeness auto
termination
  by (relation "measure (\<lambda>(env, callRoundsLeft, keepLooping, tailMessages, trace, reqs). nat \<lceil>callRoundsLeft\<rceil>)")
     auto

text \<open>
  The parameter \<^verbatim>\<open>maxAdditionalTurns\<close>: absent, it defaults to 5; present, it must pass
  \<^verbatim>\<open>validate\<close>. It is declared with \<^verbatim>\<open>type: Number\<close> and \<^verbatim>\<open>validate\<close> tests the
  range only, so a number that is not an integer passes. Authentication, rate limiting
  and the lookup of the model, which come before the loop, are left out; the check that
  the model streams is kept.
\<close>

definition validate :: "rat \<Rightarrow> bool" where
  "validate turns = (turns \<ge> 0 \<and> turns \<le> 50)"

definition maxAdditionalTurns_param :: "rat option \<Rightarrow> string + rat" where
  "maxAdditionalTurns_param p =
     (case p of
        None \<Rightarrow> Inr 5
      | Some turns \<Rightarrow> if validate turns then Inr turns else Inl ''ParamValidationError'')"

definition chatWithReader :: "chat_env \<Rightarrow> rat option \<Rightarrow> sse_event list \<times> request list \<times> outcome" where
  "chatWithReader env p =
     (case maxAdditionalTurns_param p of
        Inl e \<Rightarrow> ([], [], Threw e)
      | Inr maxAdditionalTurns \<Rightarrow>
          if \<not> streamingSupported env then ([], [], Threw ''Model does not support streaming.'')
          else chat_loop env maxAdditionalTurns True [] [] [])"


subsection \<open>A scenario\<close>

text \<open>
  A model without native function calling that answers every request with the tool
  envelope in one chunk and then ends; the parser reports the envelope as snapshot and
  as final value; the tool \<^verbatim>\<open>browse\<close> is registered and returns a page, after the
  loop has written the history of the turn.
\<close>

definition envelope_text :: string where
  \<open>envelope_text = ''{"intention":"USE_TOOLS","thoughts":"x","tools":[{"name":"browse","arguments":{"url":"https://a.test"},"id":"T1"}]}''\<close>

definition envelope :: json where
  "envelope = JObj [(''intention'', JStr ''USE_TOOLS''), (''thoughts'', JStr ''x''),
     (''tools'', JArr [JObj [(''name'', JStr ''browse''),
                             (''arguments'', JObj [(''url'', JStr ''https://a.test'')]),
                             (''id'', JStr ''T1'')]])]"

definition envelope_response :: response where
  "envelope_response = \<lparr>events = [Data (JStr envelope_text)], ending = End, history_prop = None\<rparr>"

definition envelope_history :: message where
  "envelope_history = \<lparr>msg_role = ''assistant'', msg_content = JStr envelope_text,
                         msg_name = None, msg_tool_call_id = None\<rparr>"

definition late :: timing where
  "late = \<lparr>during_stream = (\<lambda>k. []), before_close = [], after_history = []\<rparr>"

definition env_c1 :: chat_env where
  "env_c1 = \<lparr> streamingSupported = True, functionCallingSupported = False, systemSupported = True,
     mixin_system = Some ''tools'', mixin_functions = Some [JObj [(''name'', JStr ''browse'')]],
     options_system = None, options_functions = None,
     trimmedMessages = [\<lparr>msg_role = ''user'', msg_content = JStr ''read https://a.test'',
                          msg_name = None, msg_tool_call_id = None\<rparr>],
     mdl_exec = (\<lambda>req. Inr (Some \<lparr>events = [Data (JStr envelope_text)], ending = End, history_prop = None\<rparr>)),
     parser_write = (\<lambda>chunks. [PN1 [], PData envelope]),
     parser_end = (\<lambda>chunks. [PFinal envelope]),
     parseJSON = (\<lambda>s. Inl (ErrorObject ''SyntaxError'' ''Unexpected token'')),
     tools_exec = (\<lambda>name args. Resolves (JStr ''page'')),
     stringify = (\<lambda>v. ''json''),
     to_String = (\<lambda>v. ''value''),
     tool_timing = (\<lambda>req. late) \<rparr>"

subsection \<open>Turn cap\<close>

fun is_structured :: "sse_event \<Rightarrow> bool" where
  "is_structured (EvStructured final) = True"
| "is_structured _ = False"

definition structured_count :: "sse_event list \<Rightarrow> nat" where
  "structured_count trace = length (filter is_structured trace)"

text \<open>
  The \<^verbatim>\<open>final\<close> listener is registered with \<^verbatim>\<open>once\<close>: the structured events written
  so far plus the one the listener may still write never grow during a turn.
\<close>

definition structured_budget :: "turn_state \<Rightarrow> nat" where
  "structured_budget ts = structured_count (ts_trace ts) + (if ts_final ts then 0 else 1)"

lemma sse_write_simps [simp]:
  "ts_trace (sse_write ev ts) = ts_trace ts @ [ev]"
  "ts_tailMessages (sse_write ev ts) = ts_tailMessages ts"
  "ts_waitList (sse_write ev ts) = ts_waitList ts"
  "ts_settled (sse_write ev ts) = ts_settled ts"
  "ts_resp (sse_write ev ts) = ts_resp ts"
  "ts_chunks (sse_write ev ts) = ts_chunks ts"
  "ts_n1 (sse_write ev ts) = ts_n1 ts"
  "ts_n2 (sse_write ev ts) = ts_n2 ts"
  "ts_final (sse_write ev ts) = ts_final ts"
  "ts_crashed (sse_write ev ts) = ts_crashed ts"
  by (simp_all add: sse_write_def)

lemma structured_count_append [simp]:
  "structured_count (xs @ ys) = structured_count xs + structured_count ys"
  by (simp add: structured_count_def)

lemma structured_count_Nil [simp]: "structured_count [] = 0"
  by (simp add: structured_count_def)

lemma structured_count_Cons [simp]:
  "structured_count (ev # evs) = (if is_structured ev then 1 else 0) + structured_count evs"
  by (simp add: structured_count_def)

lemma finish_call_structured [simp]:
  "structured_count (ts_trace (finish_call env c ts)) = structured_count (ts_trace ts)"
  "ts_final (finish_call env c ts) = ts_final ts"
  by (cases "(env, c, ts)" rule: finish_call.cases;
      auto simp: push_history_def sse_write_def split: tool_result.splits)+

lemma settle_structured [simp]:
  "structured_count (ts_trace (settle env i ts)) = structured_count (ts_trace ts)"
  "ts_final (settle env i ts) = ts_final ts"
  by (simp_all add: settle_def)

lemma fold_settle_structured [simp]:
  "structured_count (ts_trace (fold (settle env) is ts)) = structured_count (ts_trace ts)"
  "ts_final (fold (settle env) is ts) = ts_final ts"
  by (induction "is" arbitrary: ts) simp_all

lemma fold_settle_budget [simp]:
  "structured_budget (fold (settle env) is ts) = structured_budget ts"
  by (simp add: structured_budget_def)

lemma handle_call_structured [simp]:
  "structured_count (ts_trace (handle_call env params callId ts)) = structured_count (ts_trace ts)"
  "ts_final (handle_call env params callId ts) = ts_final ts"
  by (auto simp: handle_call_def Let_def split: option.splits sum.splits tool_result.splits)

lemma emit_calls_structured [simp]:
  "structured_count (ts_trace (emit_calls env toolCalls ts)) = structured_count (ts_trace ts)"
  "ts_final (emit_calls env toolCalls ts) = ts_final ts"
  by (induction toolCalls arbitrary: ts) auto

lemma on_final_budget: "structured_budget (on_final env sfc final ts) \<le> structured_budget ts"
  by (auto simp: on_final_def structured_budget_def sse_write_def split: option.splits json.splits)

lemma on_parser_event_budget:
  "structured_budget (on_parser_event env sfc ev ts) \<le> structured_budget ts"
proof (cases ev)
  case (PFinal final)
  then show ?thesis
    using on_final_budget [of env sfc final ts] by (simp add: on_parser_event_def)
qed (auto simp: on_parser_event_def structured_budget_def sse_write_def)

lemma fold_parser_budget:
  "structured_budget (fold (on_parser_event env sfc) evs ts) \<le> structured_budget ts"
proof (induction evs arbitrary: ts)
  case Nil
  then show ?case by simp
next
  case (Cons ev evs)
  have "structured_budget (fold (on_parser_event env sfc) evs (on_parser_event env sfc ev ts))
          \<le> structured_budget (on_parser_event env sfc ev ts)"
    by (rule Cons.IH)
  also have "\<dots> \<le> structured_budget ts"
    by (rule on_parser_event_budget)
  finally show ?case by simp
qed

lemma on_stream_event_budget:
  "structured_budget (on_stream_event env sfc ev ts) \<le> structured_budget ts"
proof (cases "ts_crashed ts")
  case True
  then show ?thesis by (simp add: on_stream_event_def)
next
  case False
  show ?thesis
  proof (cases ev)
    case (Data chunk)
    show ?thesis
    proof (cases chunk)
      case (JStr c)
      let ?ts = "ts\<lparr>ts_resp := JStr (js_string env (ts_resp ts) @ c), ts_chunks := ts_chunks ts @ [c]\<rparr>"
      have "structured_budget (fold (on_parser_event env sfc) (parser_write env (ts_chunks ts @ [c])) ?ts)
              \<le> structured_budget ?ts"
        by (rule fold_parser_budget)
      then show ?thesis
        using False Data JStr
        by (simp add: on_stream_event_def structured_budget_def sse_write_def)
    qed (use False Data in \<open>simp_all add: on_stream_event_def structured_budget_def\<close>)
  next
    case (NativeCall params callId)
    with False show ?thesis
      by (simp add: on_stream_event_def structured_budget_def)
  qed
qed

lemma stream_events_budget:
  "structured_budget (stream_events env sfc tm k evs ts) \<le> structured_budget ts"
proof (induction evs arbitrary: k ts)
  case Nil
  then show ?case by simp
next
  case (Cons ev evs)
  have "structured_budget (stream_events env sfc tm (Suc k) evs
            (fold (settle env) (during_stream tm k) (on_stream_event env sfc ev ts)))
          \<le> structured_budget (fold (settle env) (during_stream tm k) (on_stream_event env sfc ev ts))"
    by (rule Cons.IH)
  also have "\<dots> = structured_budget (on_stream_event env sfc ev ts)"
    by simp
  also have "\<dots> \<le> structured_budget ts"
    by (rule on_stream_event_budget)
  finally show ?case by simp
qed

lemma consume_stream_budget:
  "structured_budget (consume_stream env sfc tm resp ts) \<le> structured_budget ts"
proof -
  let ?ts1 = "stream_events env sfc tm 0 (events resp) ts"
  have "structured_budget (fold (on_parser_event env sfc) (parser_end env (ts_chunks ?ts1)) ?ts1)
          \<le> structured_budget ?ts1"
    by (rule fold_parser_budget)
  also have "\<dots> \<le> structured_budget ts"
    by (rule stream_events_budget)
  finally show ?thesis
    by (simp add: consume_stream_def Let_def)
qed

lemma consume_stream_count:
  "structured_count (ts_trace (consume_stream env sfc tm resp
      \<lparr>ts_trace = trace, ts_tailMessages = tailMessages, ts_waitList = [],
       ts_settled = [], ts_resp = JStr [], ts_chunks = [], ts_n1 = False, ts_n2 = False,
       ts_final = False, ts_crashed = False\<rparr>)) \<le> structured_count trace + 1"
proof -
  let ?ts0 = "\<lparr>ts_trace = trace, ts_tailMessages = tailMessages, ts_waitList = [],
       ts_settled = [], ts_resp = JStr [], ts_chunks = [], ts_n1 = False, ts_n2 = False,
       ts_final = False, ts_crashed = False\<rparr>"
  have "structured_count (ts_trace (consume_stream env sfc tm resp ?ts0))
          \<le> structured_budget (consume_stream env sfc tm resp ?ts0)"
    by (simp add: structured_budget_def)
  also have "\<dots> \<le> structured_budget ?ts0"
    by (rule consume_stream_budget)
  also have "\<dots> = structured_count trace + 1"
    by (simp add: structured_budget_def)
  finally show ?thesis .
qed

lemma run_turn_structured:
  "run_turn env sfc tm tailMessages trace resp = (tailMessages', trace', keepLooping', err)
     \<Longrightarrow> structured_count trace' \<le> structured_count trace + 1"
  using consume_stream_count [of env sfc tm resp trace tailMessages]
  by (auto simp: run_turn_def Let_def sse_write_def split: if_splits stream_end.splits)

declare chat_loop.simps [simp del]

text \<open>A turn is run for each of the values the counter takes above 0.\<close>

lemma turns_left: "0 < callRoundsLeft \<Longrightarrow> nat \<lceil>callRoundsLeft\<rceil> = Suc (nat \<lceil>callRoundsLeft - 1\<rceil>)"
  for callRoundsLeft :: rat
proof -
  assume pos: "0 < callRoundsLeft"
  define n where "n = \<lceil>callRoundsLeft\<rceil>"
  have "0 < n"
    using pos by (simp add: n_def)
  then have "nat n = Suc (nat (n - 1))"
    by linarith
  moreover have "\<lceil>callRoundsLeft - 1\<rceil> = n - 1"
    by (simp add: n_def)
  ultimately show ?thesis
    by (simp only: n_def [symmetric])
qed

lemma chat_loop_structured:
  "structured_count (fst (chat_loop env callRoundsLeft keepLooping tailMessages trace reqs))
     \<le> structured_count trace + nat \<lceil>callRoundsLeft\<rceil>"
proof (induction env callRoundsLeft keepLooping tailMessages trace reqs rule: chat_loop.induct)
  case (1 env callRoundsLeft keepLooping tailMessages trace reqs)
  let ?req = "thisOptions env callRoundsLeft tailMessages"
  show ?case
  proof (cases "keepLooping \<and> callRoundsLeft > 0")
    case False
    then show ?thesis by (subst chat_loop.simps) auto
  next
    case go: True
    show ?thesis
    proof (cases "mdl_exec env ?req")
      case (Inl e)
      with go show ?thesis by (subst chat_loop.simps) simp
    next
      case (Inr r)
      show ?thesis
      proof (cases r)
        case None
        with go Inr show ?thesis by (subst chat_loop.simps) simp
      next
        case (Some resp)
        obtain tailMessages' trace' keepLooping' err where
          turn: "run_turn env (softwareFC env callRoundsLeft) (tool_timing env ?req) tailMessages trace resp
                   = (tailMessages', trace', keepLooping', err)"
          by (cases "run_turn env (softwareFC env callRoundsLeft) (tool_timing env ?req)
                       tailMessages trace resp") auto
        have step: "structured_count trace' \<le> structured_count trace + 1"
          using turn by (rule run_turn_structured)
        have left: "nat \<lceil>callRoundsLeft\<rceil> = Suc (nat \<lceil>callRoundsLeft - 1\<rceil>)"
          using go by (simp only: turns_left)
        show ?thesis
        proof (cases err)
          case (Fails e)
          with go Inr \<open>r = Some resp\<close> turn step left show ?thesis
            by (subst chat_loop.simps) simp
        next
          case Waits
          with go Inr \<open>r = Some resp\<close> turn step left show ?thesis
            by (subst chat_loop.simps) simp
        next
          case Resumes
          have "structured_count (fst (chat_loop env (callRoundsLeft - 1) keepLooping' tailMessages' trace'
                   (reqs @ [?req]))) \<le> structured_count trace' + nat \<lceil>callRoundsLeft - 1\<rceil>"
            using "1.IH" [OF go Inr \<open>r = Some resp\<close> turn [symmetric] refl refl Resumes] .
          with go Inr \<open>r = Some resp\<close> turn step left Resumes show ?thesis
            by (subst chat_loop.simps) simp
        qed
      qed
    qed
  qed
qed

text \<open>The scenario, turn by turn.\<close>

lemma env_c1_exec: "mdl_exec env_c1 req = Inr (Some envelope_response)"
  by (simp add: env_c1_def envelope_response_def)

lemma env_c1_timing: "tool_timing env_c1 req = late"
  by (simp add: env_c1_def)

lemma env_c1_softwareFC: "softwareFC env_c1 callRoundsLeft = (1 < callRoundsLeft)"
  by (simp add: softwareFC_def env_c1_def)

lemma env_c1_last_turn:
  "run_turn env_c1 False late tailMessages trace envelope_response
     = (tailMessages,
        trace @ [EvN1 [], EvSnapshot envelope, EvChunk envelope_text, EvStructured envelope,
                 EvHistory envelope_history], False, Resumes)"
  by (simp add: run_turn_def consume_stream_def envelope_response_def envelope_history_def
        on_stream_event_def on_parser_event_def on_final_def sse_write_def js_string_def Let_def
        late_def env_c1_def envelope_def)

lemma env_c1_tool_turn:
  "run_turn env_c1 True late [] [] envelope_response
     = ([\<lparr>msg_role = ''assistant'', msg_content = JStr ''json'', msg_name = None, msg_tool_call_id = None\<rparr>,
         \<lparr>msg_role = ''tool'', msg_content = JStr ''page'', msg_name = None,
           msg_tool_call_id = Some (JStr ''T1'')\<rparr>],
        [EvN1 [], EvSnapshot envelope, EvChunk envelope_text, EvStructured envelope,
         EvCall (JStr ''browse'') (JObj [(''url'', JStr ''https://a.test'')]) (Some (JStr ''T1'')),
         EvText ''Calling tool browse with arguments: json'',
         EvInjectHistory envelope_history,
         EvReturn (JStr ''browse'') (JStr ''page'') (Some (JStr ''T1'')),
         EvInjectHistory \<lparr>msg_role = ''tool'', msg_content = JStr ''page'', msg_name = None,
                           msg_tool_call_id = Some (JStr ''T1'')\<rparr>],
        True, Resumes)"
  by (simp add: run_turn_def consume_stream_def envelope_response_def envelope_history_def
        on_stream_event_def on_parser_event_def on_final_def sse_write_def js_string_def Let_def
        handle_call_def parsed_arguments_def settle_def push_history_def historyItem_def
        late_def env_c1_def envelope_def)

lemma env_c1_one_turn:
  assumes "0 < c" "c \<le> 1"
  shows "chat_loop env_c1 c True tailMessages trace reqs
     = (trace @ [EvN1 [], EvSnapshot envelope, EvChunk envelope_text, EvStructured envelope,
                 EvHistory envelope_history],
        reqs @ [thisOptions env_c1 c tailMessages], Returned)"
proof -
  have sfc: "softwareFC env_c1 c = False"
    using assms by (simp add: env_c1_softwareFC)
  show ?thesis
    using assms
    by (subst chat_loop.simps, simp add: env_c1_exec env_c1_timing sfc env_c1_last_turn,
        subst chat_loop.simps, simp)
qed

lemma env_c1_two_turns:
  assumes "1 < c" "c \<le> 2"
  shows "fst (chat_loop env_c1 c True [] [] [])
     = [EvN1 [], EvSnapshot envelope, EvChunk envelope_text, EvStructured envelope,
        EvCall (JStr ''browse'') (JObj [(''url'', JStr ''https://a.test'')]) (Some (JStr ''T1'')),
        EvText ''Calling tool browse with arguments: json'',
        EvInjectHistory envelope_history,
        EvReturn (JStr ''browse'') (JStr ''page'') (Some (JStr ''T1'')),
        EvInjectHistory \<lparr>msg_role = ''tool'', msg_content = JStr ''page'', msg_name = None,
                          msg_tool_call_id = Some (JStr ''T1'')\<rparr>,
        EvN1 [], EvSnapshot envelope, EvChunk envelope_text, EvStructured envelope,
        EvHistory envelope_history]"
proof -
  have sfc: "softwareFC env_c1 c = True"
    using assms by (simp add: env_c1_softwareFC)
  have rest: "0 < c - 1" "c - 1 \<le> 1"
    using assms by simp_all
  have pos: "0 < c"
    using assms by simp
  show ?thesis
    by (subst chat_loop.simps,
        simp add: pos env_c1_exec env_c1_timing sfc env_c1_tool_turn env_c1_one_turn [OF rest])
qed

text \<open>
  C5, as stated, fails: \<^verbatim>\<open>maxAdditionalTurns = 0.5\<close> passes \<^verbatim>\<open>validate\<close>, the loop
  condition \<^verbatim>\<open>callRoundsLeft > 0\<close> holds once, and the one turn writes one
  \<^verbatim>\<open>structured\<close> event: more than \<^verbatim>\<open>maxAdditionalTurns\<close>.
\<close>

theorem half_a_turn_is_one_turn:
  "maxAdditionalTurns_param (Some (1/2)) = Inr (1/2) \<and>
   structured_count (fst (chatWithReader env_c1 (Some (1/2)))) = 1 \<and>
   \<not> of_nat (structured_count (fst (chatWithReader env_c1 (Some (1/2))))) \<le> (1/2 :: rat)"
proof -
  have param: "maxAdditionalTurns_param (Some (1/2)) = Inr (1/2)"
    by (simp add: maxAdditionalTurns_param_def validate_def)
  have ss: "streamingSupported env_c1"
    by (simp add: env_c1_def)
  have "chat_loop env_c1 (1/2) True [] [] []
      = ([] @ [EvN1 [], EvSnapshot envelope, EvChunk envelope_text, EvStructured envelope,
               EvHistory envelope_history], [] @ [thisOptions env_c1 (1/2) []], Returned)"
    by (rule env_c1_one_turn) simp_all
  then have "fst (chatWithReader env_c1 (Some (1/2)))
      = [EvN1 [], EvSnapshot envelope, EvChunk envelope_text, EvStructured envelope,
         EvHistory envelope_history]"
    by (simp add: chatWithReader_def param ss)
  then have "structured_count (fst (chatWithReader env_c1 (Some (1/2)))) = 1"
    by simp
  with param show ?thesis by simp
qed

text \<open>
  C5, amended. The number of \<^verbatim>\<open>structured\<close> events on the output never exceeds
  \<^verbatim>\<open>maxAdditionalTurns\<close> rounded up to the next integer, hence never exceeds
  \<^verbatim>\<open>maxAdditionalTurns\<close> when that is an integer. \<^verbatim>\<open>maxAdditionalTurns\<close> has passed
  the validation \<open>0 \<le> turns \<le> 50\<close> (a value outside is rejected before anything is
  written) and defaults to 5. The loop entered with the counter at zero or below returns
  normally, the output as it was.
\<close>

theorem turn_cap_rounded_up:
  "(case maxAdditionalTurns_param p of
      Inr maxAdditionalTurns \<Rightarrow>
        0 \<le> maxAdditionalTurns \<and> maxAdditionalTurns \<le> 50 \<and>
        int (structured_count (fst (chatWithReader env p))) \<le> \<lceil>maxAdditionalTurns\<rceil> \<and>
        (maxAdditionalTurns \<in> \<int> \<longrightarrow>
           of_nat (structured_count (fst (chatWithReader env p))) \<le> maxAdditionalTurns)
    | Inl e \<Rightarrow> chatWithReader env p = ([], [], Threw e)) \<and>
   maxAdditionalTurns_param None = Inr 5 \<and>
   (callRoundsLeft \<le> 0 \<longrightarrow>
      chat_loop env callRoundsLeft keepLooping tailMessages trace reqs = (trace, reqs, Returned))"
proof (intro conjI)
  show "case maxAdditionalTurns_param p of
      Inr maxAdditionalTurns \<Rightarrow>
        0 \<le> maxAdditionalTurns \<and> maxAdditionalTurns \<le> 50 \<and>
        int (structured_count (fst (chatWithReader env p))) \<le> \<lceil>maxAdditionalTurns\<rceil> \<and>
        (maxAdditionalTurns \<in> \<int> \<longrightarrow>
           of_nat (structured_count (fst (chatWithReader env p))) \<le> maxAdditionalTurns)
    | Inl e \<Rightarrow> chatWithReader env p = ([], [], Threw e)"
  proof (cases "maxAdditionalTurns_param p")
    case (Inl e)
    then show ?thesis by (simp add: chatWithReader_def)
  next
    case (Inr n)
    then have range: "0 \<le> n" "n \<le> 50"
      by (auto simp: maxAdditionalTurns_param_def validate_def split: option.splits if_splits)
    have "structured_count (fst (chat_loop env n True [] [] [])) \<le> structured_count [] + nat \<lceil>n\<rceil>"
      by (rule chat_loop_structured)
    then have "structured_count (fst (chatWithReader env p)) \<le> nat \<lceil>n\<rceil>"
      using Inr by (auto simp: chatWithReader_def)
    moreover have "0 \<le> \<lceil>n\<rceil>"
      using range(1) by simp
    ultimately have cap: "int (structured_count (fst (chatWithReader env p))) \<le> \<lceil>n\<rceil>"
      by linarith
    have "of_nat (structured_count (fst (chatWithReader env p))) \<le> n" if "n \<in> \<int>"
    proof -
      from that obtain k :: int where k: "n = of_int k"
        by (auto elim: Ints_cases)
      with cap have "int (structured_count (fst (chatWithReader env p))) \<le> k"
        by simp
      then have "(of_int (int (structured_count (fst (chatWithReader env p)))) :: rat) \<le> of_int k"
        by (simp only: of_int_le_iff)
      with k show ?thesis by simp
    qed
    with Inr range cap show ?thesis by simp
  qed
next
  show "maxAdditionalTurns_param None = Inr 5"
    by (simp add: maxAdditionalTurns_param_def)
next
  show "callRoundsLeft \<le> 0 \<longrightarrow>
      chat_loop env callRoundsLeft keepLooping tailMessages trace reqs = (trace, reqs, Returned)"
    by (subst chat_loop.simps) simp
qed

text \<open>
  C10. With \<^verbatim>\<open>maxAdditionalTurns = 0\<close> (and a model that streams) the loop body is not
  entered: no request is made to the model, nothing is written to the output, and the
  function returns the ended stream.
\<close>

theorem no_turns_no_events:
  "streamingSupported env \<Longrightarrow> chatWithReader env (Some 0) = ([], [], Returned)"
  by (simp add: chatWithReader_def maxAdditionalTurns_param_def validate_def chat_loop.simps)

text \<open>
  In the scenario two turns are run, each writing one \<^verbatim>\<open>structured\<close> event, when
  \<^verbatim>\<open>maxAdditionalTurns\<close> is 2 and when it is 1.5.
\<close>

theorem turn_cap_rounded_up_witness:
  "maxAdditionalTurns_param (Some 2) = Inr 2 \<and>
   structured_count (fst (chatWithReader env_c1 (Some 2))) = 2 \<and>
   of_nat (structured_count (fst (chatWithReader env_c1 (Some 2)))) \<le> (2 :: rat) \<and>
   maxAdditionalTurns_param (Some (3/2)) = Inr (3/2) \<and>
   structured_count (fst (chatWithReader env_c1 (Some (3/2)))) = 2 \<and>
   int (structured_count (fst (chatWithReader env_c1 (Some (3/2))))) \<le> \<lceil>3/2 :: rat\<rceil> \<and>
   chat_loop env_c1 0 True [] [] [] = ([], [], Returned)"
proof -
  have p2: "maxAdditionalTurns_param (Some 2) = Inr 2"
    and p32: "maxAdditionalTurns_param (Some (3/2)) = Inr (3/2)"
    by (simp_all add: maxAdditionalTurns_param_def validate_def)
  have ss: "streamingSupported env_c1"
    by (simp add: env_c1_def)
  have "structured_count (fst (chat_loop env_c1 2 True [] [] [])) = 2"
    by (subst env_c1_two_turns) simp_all
  then have c2: "structured_count (fst (chatWithReader env_c1 (Some 2))) = 2"
    by (simp add: chatWithReader_def p2 ss)
  have "structured_count (fst (chat_loop env_c1 (3/2) True [] [] [])) = 2"
    by (subst env_c1_two_turns) simp_all
  then have c32: "structured_count (fst (chatWithReader env_c1 (Some (3/2)))) = 2"
    by (simp add: chatWithReader_def p32 ss)
  have int2: "(2 :: rat) \<in> \<int>"
    by simp
  note cap2 = turn_cap_rounded_up [where p = "Some 2" and env = env_c1 and callRoundsLeft = 0
      and keepLooping = True and tailMessages = "[]" and trace = "[]" and reqs = "[]"]
  note cap32 = turn_cap_rounded_up [where p = "Some (3/2)" and env = env_c1 and callRoundsLeft = 0
      and keepLooping = True and tailMessages = "[]" and trace = "[]" and reqs = "[]"]
  from cap2 int2 have "of_nat (structured_count (fst (chatWithReader env_c1 (Some 2)))) \<le> (2 :: rat)"
    by (simp add: p2)
  moreover from cap2 have "chat_loop env_c1 0 True [] [] [] = ([], [], Returned)"
    by simp
  moreover from cap32 have "int (structured_count (fst (chatWithReader env_c1 (Some (3/2))))) \<le> \<lceil>3/2 :: rat\<rceil>"
    by (simp add: p32)
  ultimately show ?thesis
    using p2 p32 c2 c32 by simp
qed

theorem no_turns_no_events_witness:
  "chatWithReader env_c1 (Some 0) = ([], [], Returned)"
proof -
  have "streamingSupported env_c1"
    by (simp add: env_c1_def)
  then show ?thesis
    by (rule no_turns_no_events)
qed

subsection \<open>The last permitted turn\<close>

fun is_call :: "sse_event \<Rightarrow> bool" where
  "is_call (EvCall name parsedArgs callId) = True"
| "is_call _ = False"

fun is_return :: "sse_event \<Rightarrow> bool" where
  "is_return (EvReturn name result callId) = True"
| "is_return _ = False"

fun is_progress :: "sse_event \<Rightarrow> bool" where
  "is_progress (EvN1 n1) = True"
| "is_progress (EvN2 n2) = True"
| "is_progress (EvSnapshot snap) = True"
| "is_progress _ = False"

fun is_final :: "parser_event \<Rightarrow> bool" where
  "is_final (PFinal final) = True"
| "is_final _ = False"

text \<open>
  Parser events other than \<^verbatim>\<open>final\<close> only write \<^verbatim>\<open>n1\<close>, \<^verbatim>\<open>n2\<close> and
  \<^verbatim>\<open>snapshot\<close> events; \<open>same_turn\<close> relates two states of a turn that differ in
  nothing else.
\<close>

definition same_turn :: "turn_state \<Rightarrow> turn_state \<Rightarrow> bool" where
  "same_turn ts ts' =
     (ts_tailMessages ts' = ts_tailMessages ts \<and> ts_waitList ts' = ts_waitList ts \<and>
      ts_settled ts' = ts_settled ts \<and>
      ts_resp ts' = ts_resp ts \<and> ts_chunks ts' = ts_chunks ts \<and>
      ts_final ts' = ts_final ts \<and> ts_crashed ts' = ts_crashed ts \<and>
      (\<exists>extra. ts_trace ts' = ts_trace ts @ extra \<and> list_all is_progress extra))"

lemma same_turn_refl: "same_turn ts ts"
  by (simp add: same_turn_def)

lemma same_turn_trans: "same_turn a b \<Longrightarrow> same_turn b c \<Longrightarrow> same_turn a c"
  by (auto simp: same_turn_def)

lemma on_parser_event_progress:
  "\<not> is_final ev \<Longrightarrow> same_turn ts (on_parser_event env sfc ev ts)"
  by (cases ev) (auto simp: on_parser_event_def same_turn_def sse_write_def)

lemma fold_parser_progress:
  "list_all (\<lambda>ev. \<not> is_final ev) evs \<Longrightarrow> same_turn ts (fold (on_parser_event env sfc) evs ts)"
proof (induction evs arbitrary: ts)
  case Nil
  then show ?case by (simp add: same_turn_refl)
next
  case (Cons ev evs)
  then have "same_turn ts (on_parser_event env sfc ev ts)"
    by (simp add: on_parser_event_progress)
  moreover have "same_turn (on_parser_event env sfc ev ts)
                   (fold (on_parser_event env sfc) evs (on_parser_event env sfc ev ts))"
    using Cons by simp
  ultimately show ?case
    using same_turn_trans by simp
qed

text \<open>While no call has been dispatched, no tool settles.\<close>

lemma settle_none: "ts_waitList ts = [] \<Longrightarrow> settle env i ts = ts"
  by (simp add: settle_def)

lemma fold_settle_none: "ts_waitList ts = [] \<Longrightarrow> fold (settle env) is ts = ts"
  by (induction "is") (simp_all add: settle_none)

lemma envelope_props:
  "is_object envelope" "get_prop envelope ''intention'' = Some (JStr ''USE_TOOLS'')"
  "\<exists>toolCalls. get_prop envelope ''tools'' = Some (JArr toolCalls)"
  by (simp_all add: envelope_def)

lemma last_turn_run:
  assumes nofinal: "list_all (\<lambda>ev. \<not> is_final ev) (parser_write env [envelope_text])"
    and fin: "parser_end env [envelope_text] = [PFinal envelope]"
  shows "\<exists>extra. list_all is_progress extra \<and>
           run_turn env False tm [] [] envelope_response
             = ([], extra @ [EvChunk envelope_text, EvStructured envelope, EvHistory envelope_history],
                False, Resumes)"
proof -
  let ?ts0 = "\<lparr>ts_trace = [], ts_tailMessages = [], ts_waitList = [], ts_settled = [],
                ts_resp = JStr envelope_text, ts_chunks = [envelope_text], ts_n1 = False, ts_n2 = False,
                ts_final = False, ts_crashed = False\<rparr>"
  let ?ts1 = "fold (on_parser_event env False) (parser_write env [envelope_text]) ?ts0"
  let ?ts2 = "sse_write (EvChunk envelope_text) ?ts1"
  let ?ts3 = "on_final env False envelope ?ts2"
  have "same_turn ?ts0 ?ts1"
    using nofinal by (rule fold_parser_progress)
  then obtain extra where extra: "list_all is_progress extra" "ts_trace ?ts1 = extra"
    and f1: "ts_tailMessages ?ts1 = []" "ts_waitList ?ts1 = []" "ts_resp ?ts1 = JStr envelope_text"
      "ts_chunks ?ts1 = [envelope_text]" "\<not> ts_final ?ts1" "\<not> ts_crashed ?ts1"
    unfolding same_turn_def by auto
  have w2: "ts_waitList ?ts2 = []"
    using f1 by (simp add: sse_write_def)
  obtain toolCalls where tools: "get_prop envelope ''tools'' = Some (JArr toolCalls)"
    using envelope_props(3) by blast
  have f3: "ts_trace ?ts3 = extra @ [EvChunk envelope_text, EvStructured envelope]"
    "ts_tailMessages ?ts3 = []" "ts_waitList ?ts3 = []" "ts_resp ?ts3 = JStr envelope_text"
    "\<not> ts_crashed ?ts3"
    using f1 extra(2) envelope_props(1,2) tools
    by (simp_all add: on_final_def sse_write_def)
  have "stream_events env False tm 0 (events envelope_response)
          \<lparr>ts_trace = [], ts_tailMessages = [], ts_waitList = [], ts_settled = [],
           ts_resp = JStr [], ts_chunks = [], ts_n1 = False, ts_n2 = False,
           ts_final = False, ts_crashed = False\<rparr>
        = fold (settle env) (during_stream tm 0) ?ts2"
    by (simp add: envelope_response_def on_stream_event_def js_string_def)
  also have "\<dots> = ?ts2"
    using w2 by (rule fold_settle_none)
  finally have stream: "consume_stream env False tm envelope_response
          \<lparr>ts_trace = [], ts_tailMessages = [], ts_waitList = [], ts_settled = [],
           ts_resp = JStr [], ts_chunks = [], ts_n1 = False, ts_n2 = False,
           ts_final = False, ts_crashed = False\<rparr> = ?ts3"
    using f1 fin f3(3)
    by (simp add: consume_stream_def on_parser_event_def sse_write_def Let_def fold_settle_none)
  have "run_turn env False tm [] [] envelope_response
          = ([], extra @ [EvChunk envelope_text, EvStructured envelope, EvHistory envelope_history],
             False, Resumes)"
    unfolding run_turn_def stream Let_def
    using f3 by (simp add: envelope_response_def envelope_history_def fold_settle_none)
  with extra(1) show ?thesis by blast
qed

text \<open>
  C1, as stated, fails: with \<^verbatim>\<open>maxAdditionalTurns = 1\<close> the only turn is the last
  one, \<^verbatim>\<open>callRoundsLeft > 1\<close> is false, so the tools are not attached and the envelope
  is reported as \<^verbatim>\<open>structured\<close> but not acted upon: no \<^verbatim>\<open>call\<close> and no
  \<^verbatim>\<open>return\<close> event is written.
\<close>

theorem one_turn_trace_has_no_call:
  "fst (chatWithReader env_c1 (Some 1))
     = [EvN1 [], EvSnapshot envelope, EvChunk envelope_text, EvStructured envelope,
        EvHistory envelope_history] \<and>
   filter is_call (fst (chatWithReader env_c1 (Some 1))) = [] \<and>
   filter is_return (fst (chatWithReader env_c1 (Some 1))) = []"
proof -
  have ss: "streamingSupported env_c1"
    by (simp add: env_c1_def)
  have loop: "chat_loop env_c1 1 True [] [] []
      = ([] @ [EvN1 [], EvSnapshot envelope, EvChunk envelope_text, EvStructured envelope,
               EvHistory envelope_history], [] @ [thisOptions env_c1 1 []], Returned)"
    by (rule env_c1_one_turn) simp_all
  have "chatWithReader env_c1 (Some 1)
      = ([EvN1 [], EvSnapshot envelope, EvChunk envelope_text, EvStructured envelope,
          EvHistory envelope_history], [thisOptions env_c1 1 []], Returned)"
    unfolding chatWithReader_def
    by (simp add: maxAdditionalTurns_param_def validate_def loop ss)
  then show ?thesis by simp
qed


lemma progress_filters:
  "list_all is_progress extra \<Longrightarrow>
     filter is_call extra = [] \<and> filter is_return extra = [] \<and> structured_count extra = 0"
proof (induction extra)
  case Nil
  then show ?case by simp
next
  case (Cons ev extra)
  then show ?case by (cases ev) simp_all
qed

text \<open>
  C1, amended. With \<^verbatim>\<open>maxAdditionalTurns = 1\<close>, when the model's stream emits the
  envelope and ends, and the parser reports the envelope as its final value, the output
  is: \<^verbatim>\<open>n1\<close>, \<^verbatim>\<open>n2\<close> and \<^verbatim>\<open>snapshot\<close> events, the \<^verbatim>\<open>chunk\<close>, exactly one
  \<^verbatim>\<open>structured\<close> event, and the terminal \<^verbatim>\<open>history\<close>; it holds no \<^verbatim>\<open>call\<close> and
  no \<^verbatim>\<open>return\<close> event, whatever tools are registered. One request is made to the
  model and the function returns.
\<close>

theorem last_turn_envelope:
  assumes "streamingSupported env"
    and "mdl_exec env (thisOptions env 1 []) = Inr (Some envelope_response)"
    and "list_all (\<lambda>ev. \<not> is_final ev) (parser_write env [envelope_text])"
    and "parser_end env [envelope_text] = [PFinal envelope]"
  shows "\<exists>extra. list_all is_progress extra \<and>
           chatWithReader env (Some 1)
             = (extra @ [EvChunk envelope_text, EvStructured envelope, EvHistory envelope_history],
                [thisOptions env 1 []], Returned) \<and>
           structured_count (fst (chatWithReader env (Some 1))) = 1 \<and>
           filter is_call (fst (chatWithReader env (Some 1))) = [] \<and>
           filter is_return (fst (chatWithReader env (Some 1))) = [] \<and>
           last (fst (chatWithReader env (Some 1))) = EvHistory envelope_history"
proof -
  from last_turn_run [OF assms(3,4)] obtain extra where
    extra: "list_all is_progress extra" and
    run: "run_turn env False (tool_timing env (thisOptions env 1 [])) [] [] envelope_response
            = ([], extra @ [EvChunk envelope_text, EvStructured envelope, EvHistory envelope_history],
               False, Resumes)"
    by blast
  have sfc: "softwareFC env 1 = False"
    by (simp add: softwareFC_def)
  have loop: "chat_loop env 1 True [] [] []
      = (extra @ [EvChunk envelope_text, EvStructured envelope, EvHistory envelope_history],
         [thisOptions env 1 []], Returned)"
    by (subst chat_loop.simps, simp add: assms(2) sfc run, subst chat_loop.simps, simp)
  have res: "chatWithReader env (Some 1)
      = (extra @ [EvChunk envelope_text, EvStructured envelope, EvHistory envelope_history],
         [thisOptions env 1 []], Returned)"
    unfolding chatWithReader_def
    by (simp add: maxAdditionalTurns_param_def validate_def loop assms(1))
  have "structured_count (fst (chatWithReader env (Some 1))) = 1"
    "filter is_call (fst (chatWithReader env (Some 1))) = []"
    "filter is_return (fst (chatWithReader env (Some 1))) = []"
    "last (fst (chatWithReader env (Some 1))) = EvHistory envelope_history"
    using progress_filters [OF extra] by (simp_all add: res)
  with extra res show ?thesis by blast
qed

theorem last_turn_envelope_witness:
  "structured_count (fst (chatWithReader env_c1 (Some 1))) = 1 \<and>
   filter is_call (fst (chatWithReader env_c1 (Some 1))) = [] \<and>
   filter is_return (fst (chatWithReader env_c1 (Some 1))) = [] \<and>
   last (fst (chatWithReader env_c1 (Some 1))) = EvHistory envelope_history"
proof -
  have "streamingSupported env_c1"
    "mdl_exec env_c1 (thisOptions env_c1 1 []) = Inr (Some envelope_response)"
    "list_all (\<lambda>ev. \<not> is_final ev) (parser_write env_c1 [envelope_text])"
    "parser_end env_c1 [envelope_text] = [PFinal envelope]"
    by (simp_all add: env_c1_def envelope_response_def)
  from last_turn_envelope [OF this] show ?thesis
    by blast
qed

text \<open>
  With a turn to spare the same envelope is acted upon: the first of two turns runs with
  the tools attached and calls \<^verbatim>\<open>browse\<close>.
\<close>

lemma two_turns_call_browse:
  "filter is_call (fst (chatWithReader env_c1 (Some 2)))
     = [EvCall (JStr ''browse'') (JObj [(''url'', JStr ''https://a.test'')]) (Some (JStr ''T1''))] \<and>
   filter is_return (fst (chatWithReader env_c1 (Some 2)))
     = [EvReturn (JStr ''browse'') (JStr ''page'') (Some (JStr ''T1''))]"
proof -
  have ss: "streamingSupported env_c1"
    by (simp add: env_c1_def)
  have "fst (chatWithReader env_c1 (Some 2)) = fst (chat_loop env_c1 2 True [] [] [])"
    by (simp add: chatWithReader_def maxAdditionalTurns_param_def validate_def ss)
  then show ?thesis
    by (simp add: env_c1_two_turns)
qed

subsection \<open>Tool failures\<close>



fun is_error :: "sse_event \<Rightarrow> bool" where
  "is_error (EvError e) = True"
| "is_error _ = False"

text \<open>The stream part of a turn, from the state the turn starts in.\<close>

definition turn_stream ::
    "chat_env \<Rightarrow> bool \<Rightarrow> timing \<Rightarrow> message list \<Rightarrow> sse_event list \<Rightarrow> response \<Rightarrow> turn_state" where
  "turn_stream env sfc tm tailMessages trace resp =
     consume_stream env sfc tm resp
       \<lparr>ts_trace = trace, ts_tailMessages = tailMessages, ts_waitList = [],
        ts_settled = [], ts_resp = JStr [], ts_chunks = [], ts_n1 = False, ts_n2 = False,
        ts_final = False, ts_crashed = False\<rparr>"

text \<open>The calls dispatched in a turn: the content of \<^verbatim>\<open>waitList\<close> when the stream closes.\<close>

definition dispatched ::
    "chat_env \<Rightarrow> bool \<Rightarrow> timing \<Rightarrow> message list \<Rightarrow> sse_event list \<Rightarrow> response \<Rightarrow> pending_call list" where
  "dispatched env sfc tm tailMessages trace resp =
     ts_waitList (turn_stream env sfc tm tailMessages trace resp)"


text \<open>What the listeners read of the state of a turn, apart from the tail messages.\<close>

definition core :: "turn_state \<Rightarrow> pending_call list \<times> json \<times> string list \<times> bool \<times> bool \<times> bool \<times> bool" where
  "core ts = (ts_waitList ts, ts_resp ts, ts_chunks ts, ts_n1 ts, ts_n2 ts, ts_final ts, ts_crashed ts)"

lemma finish_call_fields [simp]:
  "ts_waitList (finish_call env c ts) = ts_waitList ts"
  "ts_settled (finish_call env c ts) = ts_settled ts"
  "ts_resp (finish_call env c ts) = ts_resp ts"
  "ts_chunks (finish_call env c ts) = ts_chunks ts"
  "ts_n1 (finish_call env c ts) = ts_n1 ts"
  "ts_n2 (finish_call env c ts) = ts_n2 ts"
  "ts_crashed (finish_call env c ts) = ts_crashed ts"
  by (cases "(env, c, ts)" rule: finish_call.cases;
      simp add: push_history_def split: tool_result.splits)+



lemma finish_call_errors [simp]:
  "filter is_error (ts_trace (finish_call env c ts)) = filter is_error (ts_trace ts)"
  by (cases "(env, c, ts)" rule: finish_call.cases;
      simp add: push_history_def split: tool_result.splits)

lemma settle_fields [simp]:
  "ts_waitList (settle env i ts) = ts_waitList ts"
  "ts_resp (settle env i ts) = ts_resp ts"
  "ts_chunks (settle env i ts) = ts_chunks ts"
  "ts_n1 (settle env i ts) = ts_n1 ts"
  "ts_n2 (settle env i ts) = ts_n2 ts"
  "ts_crashed (settle env i ts) = ts_crashed ts"
  by (simp_all add: settle_def)

lemma settle_errors [simp]:
  "filter is_error (ts_trace (settle env i ts)) = filter is_error (ts_trace ts)"
  by (simp add: settle_def)

lemma fold_settle_fields [simp]:
  "ts_waitList (fold (settle env) is ts) = ts_waitList ts"
  "ts_resp (fold (settle env) is ts) = ts_resp ts"
  "ts_chunks (fold (settle env) is ts) = ts_chunks ts"
  "ts_n1 (fold (settle env) is ts) = ts_n1 ts"
  "ts_n2 (fold (settle env) is ts) = ts_n2 ts"
  "ts_crashed (fold (settle env) is ts) = ts_crashed ts"
  by (induction "is" arbitrary: ts) simp_all

lemma fold_settle_errors [simp]:
  "filter is_error (ts_trace (fold (settle env) is ts)) = filter is_error (ts_trace ts)"
  by (induction "is" arbitrary: ts) simp_all















text \<open>No listener and no promise writes an \<^verbatim>\<open>error\<close> event.\<close>

lemma handle_call_errors [simp]:
  "filter is_error (ts_trace (handle_call env params callId ts)) = filter is_error (ts_trace ts)"
  by (simp add: handle_call_def Let_def split: option.splits sum.splits tool_result.splits)

lemma emit_calls_errors [simp]:
  "filter is_error (ts_trace (emit_calls env toolCalls ts)) = filter is_error (ts_trace ts)"
  by (induction toolCalls arbitrary: ts) simp_all

lemma on_parser_event_errors [simp]:
  "filter is_error (ts_trace (on_parser_event env sfc ev ts)) = filter is_error (ts_trace ts)"
  by (simp add: on_parser_event_def on_final_def
        split: parser_event.splits option.splits json.splits)

lemma fold_parser_errors [simp]:
  "filter is_error (ts_trace (fold (on_parser_event env sfc) evs ts)) = filter is_error (ts_trace ts)"
  by (induction evs arbitrary: ts) simp_all

lemma on_stream_event_errors [simp]:
  "filter is_error (ts_trace (on_stream_event env sfc ev ts)) = filter is_error (ts_trace ts)"
  by (simp add: on_stream_event_def split: stream_event.splits json.splits)

lemma stream_events_errors [simp]:
  "filter is_error (ts_trace (stream_events env sfc tm k evs ts)) = filter is_error (ts_trace ts)"
  by (induction evs arbitrary: k ts) simp_all


text \<open>
  What the listeners read of the state does not depend on the tool registry: a tool
  decides what its promise writes and pushes, nothing else.
\<close>

lemma core_settle [simp]: "core (settle env i ts) = core ts"
  by (simp add: core_def)

lemma core_fold_settle [simp]: "core (fold (settle env) is ts) = core ts"
  by (simp add: core_def)

lemma js_string_tools [simp]: "js_string (env\<lparr>tools_exec := t\<rparr>) v = js_string env v"
  by (simp add: js_string_def split: json.splits)

lemma parsed_arguments_tools [simp]:
  "parsed_arguments (env\<lparr>tools_exec := t\<rparr>) a = parsed_arguments env a"
  by (simp add: parsed_arguments_def split: option.splits json.splits)









lemma run_turn_alt:
  "run_turn env sfc tm tailMessages trace resp =
     (let ts = turn_stream env sfc tm tailMessages trace resp
      in if ts_crashed ts then (ts_tailMessages ts, ts_trace ts, False, Fails ''TypeError'')
         else (case ending resp of
                 StreamError ename emessage \<Rightarrow>
                   (ts_tailMessages ts, ts_trace ts @ [EvError (ename @ '': '' @ emessage)], False,
                    Fails (ename @ '': '' @ emessage))
               | End \<Rightarrow>
                  (let keepLooping = (ts_waitList ts \<noteq> []);
                       history = (case history_prop resp of
                                    Some h \<Rightarrow> h
                                  | None \<Rightarrow> \<lparr>msg_role = ''assistant'', msg_content = ts_resp ts,
                                              msg_name = None, msg_tool_call_id = None\<rparr>);
                       ts2 = (if keepLooping then
                                sse_write (EvInjectHistory history)
                                  (if \<not> sfc then ts\<lparr>ts_tailMessages := ts_tailMessages ts @ [history]\<rparr> else ts)
                              else sse_write (EvHistory history) ts);
                       ts3 = fold (settle env) (after_history tm @ [0..<length (ts_waitList ts)]) ts2
                   in (ts_tailMessages ts3, ts_trace ts3, keepLooping,
                       if list_all (settles env) (ts_waitList ts) then Resumes else Waits))))"
  by (simp add: run_turn_def turn_stream_def)

text \<open>
  Whether a turn throws is decided by its stream (an aborted listener, a stream error),
  whatever the tools do.
\<close>

lemma run_turn_end:
  "snd (snd (snd (run_turn env sfc tm tailMessages trace resp))) =
     (if ts_crashed (turn_stream env sfc tm tailMessages trace resp) then Fails ''TypeError''
      else (case ending resp of
              End \<Rightarrow> if list_all (settles env) (dispatched env sfc tm tailMessages trace resp)
                     then Resumes else Waits
            | StreamError ename emessage \<Rightarrow> Fails (ename @ '': '' @ emessage)))"
  by (simp add: run_turn_alt dispatched_def Let_def split: stream_end.splits)










text \<open>
  When a tool called in a turn never settles, the loop never leaves
  \<^verbatim>\<open>await Promise.all(waitList)\<close>: nothing is fed back, and nothing is thrown.
\<close>

lemma chat_loop_waits:
  assumes "0 < callRoundsLeft"
    and "req = thisOptions env callRoundsLeft tailMessages"
    and "mdl_exec env req = Inr (Some resp)"
    and "ending resp = End"
    and "\<not> ts_crashed (turn_stream env (softwareFC env callRoundsLeft) (tool_timing env req)
                          tailMessages trace resp)"
    and "\<not> list_all (settles env)
             (dispatched env (softwareFC env callRoundsLeft) (tool_timing env req) tailMessages trace resp)"
  shows "snd (snd (chat_loop env callRoundsLeft True tailMessages trace reqs)) = Waiting"
proof -
  have "snd (snd (snd (run_turn env (softwareFC env callRoundsLeft) (tool_timing env req)
                         tailMessages trace resp))) = Waits"
    using assms(4-6) by (simp add: run_turn_end)
  then obtain tailMessages' trace' keepLooping' where
    "run_turn env (softwareFC env callRoundsLeft) (tool_timing env req) tailMessages trace resp
       = (tailMessages', trace', keepLooping', Waits)"
    by (cases "run_turn env (softwareFC env callRoundsLeft) (tool_timing env req)
                 tailMessages trace resp") auto
  then show ?thesis
    using assms(1,3) unfolding assms(2) by (subst chat_loop.simps) simp
qed





end
